theory Spec2Isabelle
  imports Main "HOL-Library.Word"
begin

unbundle bit_operations_syntax

section \<open>Linear allocator (linear-malloc.c, utils.h)\<close>

text \<open>
  \<open>size_t\<close>, \<open>uint64_t\<close> and pointers are 64-bit words: \<open>+\<close>, \<open>-\<close> and \<open>*\<close> wrap
  around as in C, \<open><\<close> and \<open>\<le>\<close> compare unsigned. The direction hint \<open>t\<close> is a C
  \<open>int\<close> that is only compared with \<open>FM_LM_T_TRANSIENT\<close>.
\<close>

type_synonym size_t = "64 word"

definition FM_PAGE_SIZE :: size_t where
  "FM_PAGE_SIZE = 4096"

definition FM_LM_T_TRANSIENT :: int where
  "FM_LM_T_TRANSIENT = 1"

definition FM_LM_T_PERSISTENT :: int where
  "FM_LM_T_PERSISTENT = 2"

definition NULL :: size_t where
  "NULL = 0"

text \<open>utils.h: \<open>x + (((~x) + 1) & (round - 1))\<close> and \<open>x & (~(round - 1))\<close>.\<close>

definition fm_roundup :: "size_t \<Rightarrow> size_t \<Rightarrow> size_t" where
  "fm_roundup x round = x + ((NOT x + 1) AND (round - 1))"

definition fm_rounddown :: "size_t \<Rightarrow> size_t \<Rightarrow> size_t" where
  "fm_rounddown x round = x AND NOT (round - 1)"

text \<open>
  \<open>region_t\<close>. The \<open>link\<close> member is the position of the record in the list that holds
  it: a sentinel-headed circular \<open>CList\<close> is the list of its entries in \<open>next\<close> order.
  In the buffer a record lies in the first bytes of the first page it describes; here the
  records are kept in the lists only, and are not written into the payload memory.
\<close>

record region =
  start_page :: size_t
  pages :: size_t

text \<open>
  The globals of linear-malloc.c. \<open>meta\<close> is the byte table \<open>__meta->pages\<close> held in
  page 0, indexed by page number; \<open>free_regions\<close> and \<open>freed_memories\<close> are the two
  lists \<open>__free_regions\<close> and \<open>__freed_memories\<close>; \<open>payload\<close> is the memory the
  callers read and write, by address, and the part of the buffer \<open>memcpy\<close> acts on
  (page 0 of the buffer is \<open>meta\<close>). The table is a total function: an index beyond the
  4096 entries of \<open>meta_t\<close>, undefined in C, does not occur for a buffer below 16 MiB.
\<close>

record lm_state =
  buffer_start :: size_t
  meta :: "size_t \<Rightarrow> 8 word"
  free_regions :: "region list"
  freed_memories :: "region list"
  payload :: "size_t \<Rightarrow> 8 word"

datatype error = Abort

text \<open>
  \<open>fm_lm_reinit\<close>: each failed check calls \<open>FM_ABORT\<close>, which does not return.
  \<open>contents\<close> is the memory the caller hands over: page 0 of the buffer becomes the
  metadata table, zeroed by \<open>memset\<close> unless \<open>zero_filled\<close> is non-zero.
\<close>

definition fm_lm_reinit ::
  "(size_t \<Rightarrow> 8 word) \<Rightarrow> size_t \<Rightarrow> size_t \<Rightarrow> int \<Rightarrow> error + (int \<times> lm_state)" where
  "fm_lm_reinit contents buffer sz zero_filled =
     (if buffer AND (FM_PAGE_SIZE - 1) \<noteq> 0 then Inl Abort
      else if sz AND (FM_PAGE_SIZE - 1) \<noteq> 0 then Inl Abort
      else if sz < 128 * 1024 \<or> sz \<ge> 16 * 1024 * 1024 then Inl Abort
      else Inr (0,
        \<lparr> buffer_start = buffer,
          meta = (if zero_filled = 0 then (\<lambda>i. 0) else (\<lambda>i. contents (buffer + i))),
          free_regions = [\<lparr> start_page = 1, pages = sz div FM_PAGE_SIZE - 1 \<rparr>],
          freed_memories = [],
          payload = contents \<rparr>))"

text \<open>A 32-bit store and load inside the byte table (little-endian).\<close>

definition store32 :: "(size_t \<Rightarrow> 8 word) \<Rightarrow> size_t \<Rightarrow> 32 word \<Rightarrow> (size_t \<Rightarrow> 8 word)" where
  "store32 m a v =
     m(a := ucast v, a + 1 := ucast (drop_bit 8 v),
       a + 2 := ucast (drop_bit 16 v), a + 3 := ucast (drop_bit 24 v))"

definition load32 :: "(size_t \<Rightarrow> 8 word) \<Rightarrow> size_t \<Rightarrow> 32 word" where
  "load32 m a =
     ucast (m a) OR push_bit 8 (ucast (m (a + 1))) OR
     push_bit 16 (ucast (m (a + 2))) OR push_bit 24 (ucast (m (a + 3)))"

definition mark_alloced_pages :: "lm_state \<Rightarrow> size_t \<Rightarrow> size_t \<Rightarrow> lm_state" where
  "mark_alloced_pages st first_page n =
     (if n < 0xFF then st\<lparr> meta := (meta st)(first_page := ucast n) \<rparr>
      else
        (let aligned_page = fm_roundup (first_page + 1) 4
         in st\<lparr> meta := store32 ((meta st)(first_page := 0xFF)) aligned_page (ucast n) \<rparr>))"

definition fetch_alloced_pages :: "lm_state \<Rightarrow> size_t \<Rightarrow> size_t" where
  "fetch_alloced_pages st first_page =
     (let n = meta st first_page
      in if n < 0xFF then ucast n
         else
           (let aligned_page = fm_roundup (first_page + 1) 4
            in ucast (load32 (meta st) aligned_page)))"

definition ptr_to_page :: "lm_state \<Rightarrow> size_t \<Rightarrow> size_t" where
  "ptr_to_page st ptr = (ptr - buffer_start st) div FM_PAGE_SIZE"

definition page_to_ptr :: "lm_state \<Rightarrow> size_t \<Rightarrow> size_t" where
  "page_to_ptr st page = buffer_start st + page * FM_PAGE_SIZE"

text \<open>
  \<open>move_region\<close> copies a record to the first byte of the page it now starts at and
  repairs the two neighbours' links. It changes the record's address only: its fields
  and its place in the list stay.
\<close>

definition move_region :: "region \<Rightarrow> region" where
  "move_region src = src"

text \<open>\<open>fm_lm_free\<close> (built without \<open>FM_GUARDS\<close>): \<open>c_list_link_tail\<close> appends.\<close>

definition fm_lm_free :: "lm_state \<Rightarrow> size_t \<Rightarrow> lm_state" where
  "fm_lm_free st ptr =
     (let first_page = ptr_to_page st ptr;
          n = fetch_alloced_pages st first_page
      in st\<lparr> freed_memories := freed_memories st @ [\<lparr> start_page = first_page, pages = n \<rparr>] \<rparr>)"

text \<open>
  The three first-fit scans. Each loop returns the page it found (0 when the walk
  reaches the sentinel) and the list as the loop leaves it.
\<close>

fun alloc_designated_free_pages_loop ::
  "region list \<Rightarrow> size_t \<Rightarrow> size_t \<Rightarrow> size_t \<times> region list" where
  "alloc_designated_free_pages_loop [] start requested_pages = (0, [])"
| "alloc_designated_free_pages_loop (r # rs) start requested_pages =
     (if start_page r = start \<and> pages r \<ge> requested_pages then
        (let result = start_page r;
             r' = r\<lparr> start_page := start_page r + requested_pages,
                     pages := pages r - requested_pages \<rparr>
         in if pages r' = 0 then (result, rs) else (result, move_region r' # rs))
      else
        (let (result, rs') = alloc_designated_free_pages_loop rs start requested_pages
         in (result, r # rs')))"

definition alloc_designated_free_pages ::
  "lm_state \<Rightarrow> size_t \<Rightarrow> size_t \<Rightarrow> size_t \<times> lm_state" where
  "alloc_designated_free_pages st start requested_pages =
     (let (result, rs) = alloc_designated_free_pages_loop (free_regions st) start requested_pages
      in (result, st\<lparr> free_regions := rs \<rparr>))"

fun alloc_free_pages_loop :: "region list \<Rightarrow> size_t \<Rightarrow> size_t \<times> region list" where
  "alloc_free_pages_loop [] requested_pages = (0, [])"
| "alloc_free_pages_loop (r # rs) requested_pages =
     (if pages r \<ge> requested_pages then
        (let result = start_page r;
             r' = r\<lparr> start_page := start_page r + requested_pages,
                     pages := pages r - requested_pages \<rparr>
         in if pages r' = 0 then (result, rs) else (result, move_region r' # rs))
      else
        (let (result, rs') = alloc_free_pages_loop rs requested_pages
         in (result, r # rs')))"

definition alloc_free_pages :: "lm_state \<Rightarrow> size_t \<Rightarrow> size_t \<times> lm_state" where
  "alloc_free_pages st requested_pages =
     (let (result, rs) = alloc_free_pages_loop (free_regions st) requested_pages
      in (result, st\<lparr> free_regions := rs \<rparr>))"

text \<open>
  The reverse scan follows \<open>prev\<close> from the sentinel: the loop takes the entries last
  first and hands them back in that order.
\<close>

fun alloc_free_pages_reverse_loop :: "region list \<Rightarrow> size_t \<Rightarrow> size_t \<times> region list" where
  "alloc_free_pages_reverse_loop [] requested_pages = (0, [])"
| "alloc_free_pages_reverse_loop (r # rs) requested_pages =
     (if pages r \<ge> requested_pages then
        (let result = start_page r + pages r - requested_pages;
             r' = r\<lparr> pages := pages r - requested_pages \<rparr>
         in if pages r' = 0 then (result, rs) else (result, r' # rs))
      else
        (let (result, rs') = alloc_free_pages_reverse_loop rs requested_pages
         in (result, r # rs')))"

definition alloc_free_pages_reverse :: "lm_state \<Rightarrow> size_t \<Rightarrow> size_t \<times> lm_state" where
  "alloc_free_pages_reverse st requested_pages =
     (let (result, rs) = alloc_free_pages_reverse_loop (rev (free_regions st)) requested_pages
      in (result, st\<lparr> free_regions := rev rs \<rparr>))"

text \<open>
  \<open>merged_consecutive_pages\<close>: \<open>prev_item\<close> is the head of the argument, \<open>current_item\<close>
  the entry after it; a merge keeps \<open>prev_item\<close> and unlinks \<open>current_item\<close>.
\<close>

fun merged_consecutive_pages_loop :: "region list \<Rightarrow> region list" where
  "merged_consecutive_pages_loop (prev_region # current_region # rest) =
     (if start_page prev_region + pages prev_region = start_page current_region then
        merged_consecutive_pages_loop
          (prev_region\<lparr> pages := pages prev_region + pages current_region \<rparr> # rest)
      else prev_region # merged_consecutive_pages_loop (current_region # rest))"
| "merged_consecutive_pages_loop rs = rs"

definition merged_consecutive_pages :: "lm_state \<Rightarrow> lm_state" where
  "merged_consecutive_pages st =
     st\<lparr> free_regions := merged_consecutive_pages_loop (free_regions st) \<rparr>"

text \<open>
  \<open>restore_freed_region\<close>: \<open>passed\<close> holds the entries the walk has left behind, so
  \<open>prev_item\<close> is its last entry, or the sentinel when it is empty.
\<close>

fun restore_freed_region_loop :: "region list \<Rightarrow> region list \<Rightarrow> region \<Rightarrow> region list" where
  "restore_freed_region_loop passed [] free_region =
     merged_consecutive_pages_loop (passed @ [free_region])"
| "restore_freed_region_loop passed (r # rs) free_region =
     (if start_page free_region < start_page r then
        (let attach_prev =
               (passed \<noteq> [] \<and>
                start_page (last passed) + pages (last passed) = start_page free_region);
             passed' =
               (if attach_prev
                then butlast passed @
                     [(last passed)\<lparr> pages := pages (last passed) + pages free_region \<rparr>]
                else passed)
         in if \<not> attach_prev \<and> start_page free_region + pages free_region = start_page r then
              merged_consecutive_pages_loop
                (passed' @
                 move_region (r\<lparr> start_page := start_page free_region,
                                 pages := pages r + pages free_region \<rparr>) # rs)
            else if attach_prev then merged_consecutive_pages_loop (passed' @ r # rs)
            else passed @ free_region # r # rs)
      else restore_freed_region_loop (passed @ [r]) rs free_region)"

definition restore_freed_region :: "lm_state \<Rightarrow> region \<Rightarrow> lm_state" where
  "restore_freed_region st free_region =
     st\<lparr> free_regions := restore_freed_region_loop [] (free_regions st) free_region \<rparr>"

definition restore_all_freed_memories :: "lm_state \<Rightarrow> lm_state" where
  "restore_all_freed_memories st =
     (foldl restore_freed_region st (freed_memories st))\<lparr> freed_memories := [] \<rparr>"

definition alloc :: "lm_state \<Rightarrow> size_t \<Rightarrow> int \<Rightarrow> size_t \<times> lm_state" where
  "alloc st n t =
     (if t = FM_LM_T_TRANSIENT then alloc_free_pages st n else alloc_free_pages_reverse st n)"

definition fm_lm_malloc :: "lm_state \<Rightarrow> size_t \<Rightarrow> int \<Rightarrow> size_t \<times> lm_state" where
  "fm_lm_malloc st sz t =
     (let sz' = fm_roundup sz FM_PAGE_SIZE;
          n = sz' div FM_PAGE_SIZE;
          (page, st1) = alloc st n t;
          (page, st2) = (if page = 0 then alloc (restore_all_freed_memories st1) n t
                         else (page, st1))
      in if page = 0 then (NULL, st2)
         else (page_to_ptr st2 page, mark_alloced_pages st2 page n))"

text \<open>\<open>memcpy\<close> on the payload memory.\<close>

definition memcpy ::
  "(size_t \<Rightarrow> 8 word) \<Rightarrow> size_t \<Rightarrow> size_t \<Rightarrow> size_t \<Rightarrow> (size_t \<Rightarrow> 8 word)" where
  "memcpy m dst src n = (\<lambda>a. if a - dst < n then m (src + (a - dst)) else m a)"

definition fm_lm_realloc :: "lm_state \<Rightarrow> size_t \<Rightarrow> size_t \<Rightarrow> int \<Rightarrow> size_t \<times> lm_state" where
  "fm_lm_realloc st ptr sz t =
     (if ptr = NULL then fm_lm_malloc st sz t
      else
        (let sz' = fm_roundup sz FM_PAGE_SIZE;
             new_pages = sz' div FM_PAGE_SIZE;
             first_page = ptr_to_page st ptr;
             n = fetch_alloced_pages st first_page
         in if new_pages \<le> n then (ptr, st)
            else
              (let (succeeding_pages, st1) =
                     alloc_designated_free_pages st (first_page + n) (new_pages - n)
               in if succeeding_pages \<noteq> 0 then (ptr, st1)
                  else
                    (let (p, st2) = fm_lm_malloc st1 sz' t
                     in if p \<noteq> NULL then
                          (p, fm_lm_free
                                (st2\<lparr> payload := memcpy (payload st2) p ptr (n * FM_PAGE_SIZE) \<rparr>)
                                ptr)
                        else (p, st2)))))"

section \<open>Slab allocator (slab-malloc.c)\<close>

definition FM_SM_INVALID_SLAB :: size_t where
  "FM_SM_INVALID_SLAB = 0xFFFFFFFF"

definition slab_sizes :: "size_t list" where
  "slab_sizes = [32, 64, 128, 512, 1024]"

definition PAGE_META_RESERVED_SIZE :: size_t where
  "PAGE_META_RESERVED_SIZE = 64"

text \<open>
  \<open>page_meta_t\<close>, the header in the first 64 bytes of a slab page. The fields \<open>size\<close>
  and \<open>slab_index\<close> are \<open>size_cell\<close> and \<open>slab_index_of\<close> here; \<open>link\<close> is the place
  of the page in its class list.
\<close>

record page_meta =
  bitmap :: "64 word list"
  size_cell :: size_t
  count :: size_t
  slab_index_of :: size_t

text \<open>
  The slab layer's globals on top of the linear allocator's: the five class lists
  \<open>slab_lists\<close>, each the list of the slab pages linked into it, by page address, and
  the headers of the slab pages, by page address.
\<close>

record sm_state =
  lm :: lm_state
  slab_lists :: "size_t list list"
  slab_pages :: "size_t \<Rightarrow> page_meta"

definition fm_sm_reinit ::
  "sm_state \<Rightarrow> (size_t \<Rightarrow> 8 word) \<Rightarrow> size_t \<Rightarrow> size_t \<Rightarrow> int \<Rightarrow> error + (int \<times> sm_state)" where
  "fm_sm_reinit st contents buffer sz zero_filled =
     (case fm_lm_reinit contents buffer sz zero_filled of
        Inl e \<Rightarrow> Inl e
      | Inr (ret, lms) \<Rightarrow>
          if ret \<noteq> 0 then Inr (ret, st\<lparr> lm := lms \<rparr>)
          else Inr (0, st\<lparr> lm := lms, slab_lists := replicate 5 [] \<rparr>))"

fun slab_index_loop :: "size_t list \<Rightarrow> size_t \<Rightarrow> size_t \<Rightarrow> size_t" where
  "slab_index_loop [] i sz = FM_SM_INVALID_SLAB"
| "slab_index_loop (s # ss) i sz = (if sz \<le> s then i else slab_index_loop ss (i + 1) sz)"

definition slab_index :: "size_t \<Rightarrow> size_t" where
  "slab_index sz = slab_index_loop slab_sizes 0 sz"

text \<open>
  \<open>ptr_to_index\<close> and \<open>index_to_ptr\<close> (built without \<open>FM_GUARDS\<close>); \<open>meta\<close> is the
  address of the slab page, \<open>hdr\<close> the header stored there.
\<close>

definition ptr_to_index :: "size_t \<Rightarrow> page_meta \<Rightarrow> size_t \<Rightarrow> size_t" where
  "ptr_to_index meta_addr hdr ptr =
     (let base = meta_addr + PAGE_META_RESERVED_SIZE
      in (ptr - base) div size_cell hdr)"

definition index_to_ptr :: "size_t \<Rightarrow> page_meta \<Rightarrow> size_t \<Rightarrow> size_t" where
  "index_to_ptr meta_addr hdr index =
     meta_addr + PAGE_META_RESERVED_SIZE + index * size_cell hdr"

text \<open>\<open>__builtin_popcountl\<close> and \<open>__builtin_ctzl\<close> on a 64-bit word.\<close>

definition popcountl :: "64 word \<Rightarrow> nat" where
  "popcountl w = length (filter (bit w) [0..<64])"

definition ctzl :: "64 word \<Rightarrow> nat" where
  "ctzl w = length (takeWhile (\<lambda>i. \<not> bit w i) [0..<64])"

definition bitmap_all_cleared :: "page_meta \<Rightarrow> bool" where
  "bitmap_all_cleared hdr = (bitmap hdr ! 0 = 0 \<and> bitmap hdr ! 1 = 0)"

definition bitmap_all_used :: "page_meta \<Rightarrow> bool" where
  "bitmap_all_used hdr =
     ((of_nat (popcountl (bitmap hdr ! 0) + popcountl (bitmap hdr ! 1)) :: size_t) = count hdr)"

definition bitmap_next_free :: "page_meta \<Rightarrow> size_t" where
  "bitmap_next_free hdr =
     (let zeros =
            (if bitmap hdr ! 0 \<noteq> - 1 then of_nat (ctzl (NOT (bitmap hdr ! 0)))
             else if bitmap hdr ! 1 \<noteq> - 1 then 64 + of_nat (ctzl (NOT (bitmap hdr ! 1)))
             else FM_SM_INVALID_SLAB)
      in if zeros \<ge> count hdr then FM_SM_INVALID_SLAB else zeros)"

definition bitmap_set :: "page_meta \<Rightarrow> size_t \<Rightarrow> page_meta" where
  "bitmap_set hdr index =
     hdr\<lparr> bitmap := (bitmap hdr)
            [unat (index div 64) :=
               bitmap hdr ! unat (index div 64) OR push_bit (unat (index mod 64)) 1] \<rparr>"

definition bitmap_clear :: "page_meta \<Rightarrow> size_t \<Rightarrow> page_meta" where
  "bitmap_clear hdr index =
     hdr\<lparr> bitmap := (bitmap hdr)
            [unat (index div 64) :=
               bitmap hdr ! unat (index div 64) AND NOT (push_bit (unat (index mod 64)) 1)] \<rparr>"

definition fm_sm_free :: "sm_state \<Rightarrow> size_t \<Rightarrow> sm_state" where
  "fm_sm_free st ptr =
     (if ptr AND (FM_PAGE_SIZE - 1) = 0 then st\<lparr> lm := fm_lm_free (lm st) ptr \<rparr>
      else
        (let meta_addr = fm_rounddown ptr FM_PAGE_SIZE;
             hdr = slab_pages st meta_addr;
             element_index = ptr_to_index meta_addr hdr ptr;
             all_used = bitmap_all_used hdr;
             hdr' = bitmap_clear hdr element_index;
             st' = st\<lparr> slab_pages := (slab_pages st)(meta_addr := hdr') \<rparr>
         in if all_used then
              st'\<lparr> slab_lists := (slab_lists st')
                     [unat (slab_index_of hdr') :=
                        slab_lists st' ! unat (slab_index_of hdr') @ [meta_addr]] \<rparr>
            else st'))"

text \<open>
  \<open>free_empty_slabs\<close>: the inner loop walks one class list, unlinks every page whose
  bitmap is all clear and passes it to \<open>fm_lm_free\<close>; the outer loop takes the classes
  in order. \<open>fm_lm_free\<close> writes its record over the header of the page it is given; the
  page has left its class list by then, and its header is set anew when \<open>fm_sm_malloc\<close>
  takes the page as a slab page again, so the headers stay as they are here.
\<close>

fun free_empty_slabs_loop ::
  "(size_t \<Rightarrow> page_meta) \<Rightarrow> size_t list \<Rightarrow> lm_state \<Rightarrow> size_t list \<times> lm_state" where
  "free_empty_slabs_loop hdrs [] lms = ([], lms)"
| "free_empty_slabs_loop hdrs (m # rest) lms =
     (if bitmap_all_cleared (hdrs m) then free_empty_slabs_loop hdrs rest (fm_lm_free lms m)
      else
        (let (kept, lms') = free_empty_slabs_loop hdrs rest lms
         in (m # kept, lms')))"

definition free_empty_slabs_class :: "sm_state \<Rightarrow> nat \<Rightarrow> sm_state" where
  "free_empty_slabs_class st i =
     (let (kept, lms) = free_empty_slabs_loop (slab_pages st) (slab_lists st ! i) (lm st)
      in st\<lparr> lm := lms, slab_lists := (slab_lists st)[i := kept] \<rparr>)"

definition free_empty_slabs :: "sm_state \<Rightarrow> sm_state" where
  "free_empty_slabs st = foldl free_empty_slabs_class st [0..<length slab_sizes]"

text \<open>The private wrapper \<open>lm_malloc\<close> of slab-malloc.c.\<close>

definition lm_malloc :: "sm_state \<Rightarrow> size_t \<Rightarrow> int \<Rightarrow> size_t \<times> sm_state" where
  "lm_malloc st sz t =
     (let (p, lms) = fm_lm_malloc (lm st) sz t
      in if p = NULL then
           (let st1 = free_empty_slabs (st\<lparr> lm := lms \<rparr>);
                (p', lms') = fm_lm_malloc (lm st1) sz t
            in (p', st1\<lparr> lm := lms' \<rparr>))
         else (p, st\<lparr> lm := lms \<rparr>))"

text \<open>
  The scan of one class list in \<open>fm_sm_malloc\<close>: the cell found, the headers and the
  list as the loop leaves them, or \<open>None\<close> when the walk reaches the sentinel.
\<close>

fun fm_sm_malloc_loop ::
  "(size_t \<Rightarrow> page_meta) \<Rightarrow> size_t list \<Rightarrow>
   (size_t \<times> (size_t \<Rightarrow> page_meta) \<times> size_t list) option" where
  "fm_sm_malloc_loop hdrs [] = None"
| "fm_sm_malloc_loop hdrs (m # rest) =
     (let index = bitmap_next_free (hdrs m)
      in if index \<noteq> FM_SM_INVALID_SLAB then
           (let hdr' = bitmap_set (hdrs m) index
            in Some (index_to_ptr m hdr' index, hdrs(m := hdr'),
                     if bitmap_all_used hdr' then rest else m # rest))
         else
           (case fm_sm_malloc_loop hdrs rest of
              None \<Rightarrow> None
            | Some (p, hdrs', rest') \<Rightarrow> Some (p, hdrs', m # rest')))"

definition fm_sm_malloc :: "sm_state \<Rightarrow> size_t \<Rightarrow> size_t \<times> sm_state" where
  "fm_sm_malloc st sz =
     (let i = slab_index sz
      in if i = FM_SM_INVALID_SLAB then lm_malloc st sz FM_LM_T_TRANSIENT
         else
           (case fm_sm_malloc_loop (slab_pages st) (slab_lists st ! unat i) of
              Some (p, hdrs, l) \<Rightarrow>
                (p, st\<lparr> slab_pages := hdrs, slab_lists := (slab_lists st)[unat i := l] \<rparr>)
            | None \<Rightarrow>
                (let (slab, lms) = fm_lm_malloc (lm st) FM_PAGE_SIZE FM_LM_T_PERSISTENT
                 in if slab = NULL then (NULL, st\<lparr> lm := lms \<rparr>)
                    else
                      (let hdr = \<lparr> bitmap = [0, 0],
                                   size_cell = slab_sizes ! unat i,
                                   count = (FM_PAGE_SIZE - PAGE_META_RESERVED_SIZE)
                                           div (slab_sizes ! unat i),
                                   slab_index_of = i \<rparr>;
                           element_index = 0;
                           hdr' = bitmap_set hdr element_index
                       in (index_to_ptr slab hdr' element_index,
                           st\<lparr> lm := lms,
                               slab_pages := (slab_pages st)(slab := hdr'),
                               slab_lists := (slab_lists st)
                                 [unat i := slab # slab_lists st ! unat i] \<rparr>)))))"

definition fm_sm_realloc :: "sm_state \<Rightarrow> size_t \<Rightarrow> size_t \<Rightarrow> size_t \<times> sm_state" where
  "fm_sm_realloc st ptr sz =
     (if ptr AND (FM_PAGE_SIZE - 1) = 0 then
        (let (p, lms) = fm_lm_realloc (lm st) ptr sz FM_LM_T_TRANSIENT
         in (p, st\<lparr> lm := lms \<rparr>))
      else
        (let meta_addr = fm_rounddown ptr FM_PAGE_SIZE
         in if sz \<le> size_cell (slab_pages st meta_addr) then (ptr, st)
            else
              (let (p, st1) = fm_sm_malloc st sz
               in if p \<noteq> NULL then
                    (p, fm_sm_free
                          (st1\<lparr> lm := (lm st1)
                                 \<lparr> payload := memcpy (payload (lm st1)) p ptr
                                                (size_cell (slab_pages st1 meta_addr)) \<rparr> \<rparr>)
                          ptr)
                  else (p, st1))))"

section \<open>The end-to-end scenarios on a 128 KiB buffer\<close>

text \<open>
  A caller's memory of zero bytes, the state \<open>fm_lm_reinit\<close> leaves for a buffer of 32
  pages at address \<open>0x10000\<close>, and the calls of the scenarios S1 and S2.
\<close>

definition zero_memory :: "size_t \<Rightarrow> 8 word" where
  "zero_memory = (\<lambda>a. 0)"

definition scenario_S0 :: lm_state where
  "scenario_S0 =
     \<lparr> buffer_start = 0x10000, meta = zero_memory,
       free_regions = [\<lparr> start_page = 1, pages = 31 \<rparr>], freed_memories = [],
       payload = zero_memory \<rparr>"

definition scenario_S1a :: "size_t \<times> lm_state" where
  "scenario_S1a = fm_lm_malloc scenario_S0 4096 FM_LM_T_TRANSIENT"

definition scenario_S1b :: "size_t \<times> lm_state" where
  "scenario_S1b = fm_lm_malloc (snd scenario_S1a) 4096 FM_LM_T_PERSISTENT"

definition scenario_S2_freed :: lm_state where
  "scenario_S2_freed =
     fm_lm_free (fm_lm_free (snd scenario_S1b) (fst scenario_S1a)) (fst scenario_S1b)"

definition scenario_S2 :: "size_t \<times> lm_state" where
  "scenario_S2 = fm_lm_malloc scenario_S2_freed 8192 FM_LM_T_TRANSIENT"

text \<open>
  Growing a one-page allocation in place: \<open>p = fm_lm_malloc(4096, TRANSIENT)\<close>, then
  \<open>fm_lm_realloc(p, 8192, TRANSIENT)\<close>, and the same \<open>fm_lm_realloc\<close> once more.
\<close>

definition scenario_grow :: "size_t \<times> lm_state" where
  "scenario_grow = fm_lm_realloc (snd scenario_S1a) (fst scenario_S1a) 8192 FM_LM_T_TRANSIENT"

definition scenario_grow_again :: "size_t \<times> lm_state" where
  "scenario_grow_again =
     fm_lm_realloc (snd scenario_grow) (fst scenario_grow) 8192 FM_LM_T_TRANSIENT"

text \<open>
  A slab state with an empty slab page and no free page left: on the fresh 32-page
  buffer, \<open>fm_sm_malloc(30 * 4096)\<close> takes pages 1 to 30, \<open>c = fm_sm_malloc(64)\<close> opens a
  slab page at page 31, and \<open>fm_sm_free(c)\<close> clears its only cell.
\<close>

definition empty_page_meta :: page_meta where
  "empty_page_meta = \<lparr> bitmap = [0, 0], size_cell = 0, count = 0, slab_index_of = 0 \<rparr>"

definition no_slab_pages :: "size_t \<Rightarrow> page_meta" where
  "no_slab_pages = (\<lambda>a. empty_page_meta)"

definition scenario_sm0 :: sm_state where
  "scenario_sm0 = \<lparr> lm = scenario_S0, slab_lists = replicate 5 [], slab_pages = no_slab_pages \<rparr>"

definition scenario_sm_big :: "size_t \<times> sm_state" where
  "scenario_sm_big = fm_sm_malloc scenario_sm0 (30 * 4096)"

definition scenario_sm_cell :: "size_t \<times> sm_state" where
  "scenario_sm_cell = fm_sm_malloc (snd scenario_sm_big) 64"

definition scenario_sm_full :: sm_state where
  "scenario_sm_full = fm_sm_free (snd scenario_sm_cell) (fst scenario_sm_cell)"

section \<open>Well-formed allocator states and call traces\<close>

text \<open>
  The pages of a record, as natural numbers and without wrap-around: a record \<open>r\<close> holds
  the pages from \<open>start_page r\<close> up to, and not including, \<open>region_end r\<close>.
\<close>

definition region_end :: "region \<Rightarrow> nat" where
  "region_end r = unat (start_page r) + unat (pages r)"

definition region_pages :: "region \<Rightarrow> nat set" where
  "region_pages r = {unat (start_page r) ..< region_end r}"

definition cover :: "region list \<Rightarrow> nat set" where
  "cover rs = (\<Union>r \<in> set rs. region_pages r)"

text \<open>
  In a buffer of \<open>N\<close> pages a record is in order when it starts after page 0, is not
  empty and ends inside the buffer.
\<close>

definition region_ok :: "nat \<Rightarrow> region \<Rightarrow> bool" where
  "region_ok N r = (1 \<le> unat (start_page r) \<and> 1 \<le> unat (pages r) \<and> region_end r \<le> N)"

text \<open>
  A free list in order: every record is, and each record ends before every later one
  starts, with at least one page between them. The weak form lets a record end exactly
  where a later one starts; it describes the list between an insertion and the merge pass.
\<close>

definition free_list_ok :: "nat \<Rightarrow> region list \<Rightarrow> bool" where
  "free_list_ok N rs =
     ((\<forall>r \<in> set rs. region_ok N r) \<and>
      sorted_wrt (\<lambda>a b. region_end a < unat (start_page b)) rs)"

definition weak_list_ok :: "nat \<Rightarrow> region list \<Rightarrow> bool" where
  "weak_list_ok N rs =
     ((\<forall>r \<in> set rs. region_ok N r) \<and>
      sorted_wrt (\<lambda>a b. region_end a \<le> unat (start_page b)) rs)"

fun regions_disjoint :: "region list \<Rightarrow> bool" where
  "regions_disjoint [] = True"
| "regions_disjoint (r # rs) =
     ((\<forall>s \<in> set rs. region_pages r \<inter> region_pages s = {}) \<and> regions_disjoint rs)"

text \<open>
  The property of the free list as the specification words it, on the 64-bit fields:
  strictly ascending in \<open>start_page\<close>, and no record \<open>A\<close> directly followed by a record
  \<open>B\<close> with \<open>A.start_page + A.pages == B.start_page\<close>.
\<close>

fun no_touching :: "region list \<Rightarrow> bool" where
  "no_touching (a # b # rs) =
     (start_page a + pages a \<noteq> start_page b \<and> no_touching (b # rs))"
| "no_touching rs = True"

definition sorted_coalesced :: "region list \<Rightarrow> bool" where
  "sorted_coalesced rs = (sorted_wrt (<) (map start_page rs) \<and> no_touching rs)"

text \<open>
  The run a live pointer stands for, as \<open>fm_lm_free\<close> will read it from the metadata
  table: it starts at the pointer's page and has the recorded length.
\<close>

definition live_region :: "lm_state \<Rightarrow> size_t \<Rightarrow> region" where
  "live_region st p =
     \<lparr> start_page = ptr_to_page st p,
       pages = fetch_alloced_pages st (ptr_to_page st p) \<rparr>"

text \<open>
  The invariant of the linear allocator over a buffer of \<open>N\<close> pages with the live
  pointers \<open>L\<close>: the free list is in order; the deferred records and the live runs are
  in order; free records, deferred records and live runs share no page; a live pointer is
  the address of its page, and a length byte of \<open>0xFF\<close> goes with a run of at least 255
  pages.
\<close>

definition lm_inv :: "nat \<Rightarrow> lm_state \<Rightarrow> bool" where
  "lm_inv N st =
     (N \<le> 4095 \<and> free_list_ok N (free_regions st) \<and>
      (\<forall>d \<in> set (freed_memories st). region_ok N d) \<and>
      regions_disjoint (freed_memories st) \<and>
      cover (free_regions st) \<inter> cover (freed_memories st) = {})"

definition live_ok :: "nat \<Rightarrow> lm_state \<Rightarrow> size_t \<Rightarrow> bool" where
  "live_ok N st p =
     (page_to_ptr st (ptr_to_page st p) = p \<and>
      region_ok N (live_region st p) \<and>
      (meta st (ptr_to_page st p) = 0xFF \<longrightarrow> 255 \<le> unat (pages (live_region st p))) \<and>
      region_pages (live_region st p) \<inter> cover (free_regions st) = {} \<and>
      region_pages (live_region st p) \<inter> cover (freed_memories st) = {})"

definition lm_inv_live :: "nat \<Rightarrow> lm_state \<Rightarrow> size_t set \<Rightarrow> bool" where
  "lm_inv_live N st L =
     (lm_inv N st \<and> (\<forall>p \<in> L. live_ok N st p) \<and>
      (\<forall>p \<in> L. \<forall>q \<in> L. p \<noteq> q \<longrightarrow>
         region_pages (live_region st p) \<inter> region_pages (live_region st q) = {}))"

text \<open>
  The buffer is an object of the address space: it starts on a page boundary and ends
  below the top address.
\<close>

definition buffer_fits :: "nat \<Rightarrow> lm_state \<Rightarrow> bool" where
  "buffer_fits N st =
     (buffer_start st AND (FM_PAGE_SIZE - 1) = 0 \<and>
      unat (buffer_start st) + N * 4096 < 2 ^ 64)"

text \<open>
  Calls of a client: it allocates with any size and direction, and it frees or reallocates
  only pointers it holds. \<open>lm_step\<close> runs one call on the state and the set of pointers
  the client holds, \<open>None\<close> when the client passes a pointer it does not hold; \<open>lm_run\<close>
  runs a list of calls. \<open>fm_lm_malloc\<close> has no guard on the size, and neither has
  \<open>lm_step\<close>: a request that rounds to zero pages runs as every other request does.
  \<open>at_least_one_page\<close> tells the calls that are not such a request.
\<close>

datatype lm_call = Malloc size_t int | Free size_t | Realloc size_t size_t int

definition requested_pages_of :: "size_t \<Rightarrow> size_t" where
  "requested_pages_of sz = fm_roundup sz FM_PAGE_SIZE div FM_PAGE_SIZE"

fun lm_step :: "lm_state \<times> size_t set \<Rightarrow> lm_call \<Rightarrow> (lm_state \<times> size_t set) option" where
  "lm_step (st, L) (Malloc sz t) =
     (let (p, st') = fm_lm_malloc st sz t
      in Some (st', if p = NULL then L else insert p L))"
| "lm_step (st, L) (Free p) =
     (if p \<in> L then Some (fm_lm_free st p, L - {p}) else None)"
| "lm_step (st, L) (Realloc p sz t) =
     (if p \<in> L then
        (let (q, st') = fm_lm_realloc st p sz t
         in Some (st', if q = NULL then L else insert q (L - {p})))
      else None)"

fun lm_run :: "lm_state \<times> size_t set \<Rightarrow> lm_call list \<Rightarrow> (lm_state \<times> size_t set) option" where
  "lm_run s [] = Some s"
| "lm_run s (c # cs) = (case lm_step s c of None \<Rightarrow> None | Some s' \<Rightarrow> lm_run s' cs)"

fun at_least_one_page :: "lm_call \<Rightarrow> bool" where
  "at_least_one_page (Malloc sz t) = (requested_pages_of sz \<noteq> 0)"
| "at_least_one_page (Free p) = True"
| "at_least_one_page (Realloc p sz t) = True"

text \<open>What a scan returns: nothing, with the list as it was, or a run cut out of it.\<close>

definition carved :: "nat \<Rightarrow> region list \<Rightarrow> size_t \<Rightarrow> size_t \<Rightarrow> region list \<Rightarrow> bool" where
  "carved N rs res n rs' =
     ((res = 0 \<and> rs' = rs) \<or>
      (res \<noteq> 0 \<and>
       region_ok N \<lparr> start_page = res, pages = n \<rparr> \<and>
       cover rs = cover rs' \<union> region_pages \<lparr> start_page = res, pages = n \<rparr> \<and>
       cover rs' \<inter> region_pages \<lparr> start_page = res, pages = n \<rparr> = {}))"

text \<open>
  The page a request for zero bytes is answered with: the start of the first free record
  for \<open>FM_LM_T_TRANSIENT\<close>, the page after the last page of the last free record for any
  other direction.
\<close>

definition zero_size_page :: "lm_state \<Rightarrow> int \<Rightarrow> size_t" where
  "zero_size_page st t =
     (if t = FM_LM_T_TRANSIENT then start_page (hd (free_regions st))
      else start_page (last (free_regions st)) + pages (last (free_regions st)))"

section \<open>Well-formed slab states\<close>

text \<open>
  A slab page in order: it starts on a page boundary, and its cells end inside the page.
  A slab state in order: there are five class lists, the linear buffer starts on a page
  boundary, and every page linked into a class list is in order.
\<close>

definition slab_page_ok :: "page_meta \<Rightarrow> size_t \<Rightarrow> bool" where
  "slab_page_ok hdr m =
     (m AND (FM_PAGE_SIZE - 1) = 0 \<and> 64 + unat (count hdr) * unat (size_cell hdr) \<le> 4096)"

definition sm_wf :: "sm_state \<Rightarrow> bool" where
  "sm_wf st =
     (length (slab_lists st) = 5 \<and>
      buffer_start (lm st) AND (FM_PAGE_SIZE - 1) = 0 \<and>
      (\<forall>l \<in> set (slab_lists st). \<forall>m \<in> set l. slab_page_ok (slab_pages st m) m))"

text \<open>
  An allocated slab cell pointer: it is not page-aligned; the header of its page is the
  header of a slab page of one of the five classes; it lies on a cell boundary, at an
  index below \<open>count\<close>; and the bit of its cell is set in the bitmap.
\<close>

definition allocated_cell :: "sm_state \<Rightarrow> size_t \<Rightarrow> bool" where
  "allocated_cell st ptr =
     (let meta_addr = fm_rounddown ptr FM_PAGE_SIZE;
          hdr = slab_pages st meta_addr;
          index = ptr_to_index meta_addr hdr ptr
      in ptr AND (FM_PAGE_SIZE - 1) \<noteq> 0 \<and>
         size_cell hdr \<in> set slab_sizes \<and>
         count hdr = (FM_PAGE_SIZE - PAGE_META_RESERVED_SIZE) div size_cell hdr \<and>
         length (bitmap hdr) = 2 \<and>
         (ptr - (meta_addr + PAGE_META_RESERVED_SIZE)) mod size_cell hdr = 0 \<and>
         index < count hdr \<and>
         bit (bitmap hdr ! unat (index div 64)) (unat (index mod 64)))"

text \<open>
  What a call leaves alone for a slab page \<open>m\<close>: the headers, the payload, the number
  of class lists, and the membership of \<open>m\<close> in each class list.
\<close>

definition slab_kept :: "size_t \<Rightarrow> sm_state \<Rightarrow> sm_state \<Rightarrow> bool" where
  "slab_kept m st st' =
     (slab_pages st' = slab_pages st \<and> payload (lm st') = payload (lm st) \<and>
      length (slab_lists st') = length (slab_lists st) \<and>
      (\<forall>j. (m \<in> set (slab_lists st' ! j)) = (m \<in> set (slab_lists st ! j))))"

text \<open>
  Traces on the fresh 32-page buffer. \<open>scenario_frees\<close> allocates pages 1, 2 and 3 and
  frees pages 1 and 3, which leaves \<open>scenario_frees_state\<close>; \<open>scenario_S1_calls\<close> are
  the two allocations of scenario S1.
\<close>

definition scenario_frees :: "lm_call list" where
  "scenario_frees =
     [Malloc 4096 FM_LM_T_TRANSIENT, Malloc 4096 FM_LM_T_TRANSIENT,
      Malloc 4096 FM_LM_T_TRANSIENT, Free 0x11000, Free 0x13000]"

definition scenario_frees_state :: lm_state where
  "scenario_frees_state =
     \<lparr> buffer_start = 0x10000, meta = zero_memory(1 := 1, 2 := 1, 3 := 1),
       free_regions = [\<lparr> start_page = 4, pages = 28 \<rparr>],
       freed_memories = [\<lparr> start_page = 1, pages = 1 \<rparr>, \<lparr> start_page = 3, pages = 1 \<rparr>],
       payload = zero_memory \<rparr>"

definition scenario_S1_calls :: "lm_call list" where
  "scenario_S1_calls = [Malloc 4096 FM_LM_T_TRANSIENT, Malloc 4096 FM_LM_T_PERSISTENT]"

definition scenario_S1_state :: lm_state where
  "scenario_S1_state =
     \<lparr> buffer_start = 0x10000, meta = zero_memory(1 := 1, 31 := 1),
       free_regions = [\<lparr> start_page = 2, pages = 29 \<rparr>], freed_memories = [],
       payload = zero_memory \<rparr>"

text \<open>
  \<open>scenario_one_freed_calls\<close> allocates page 1 and frees it again, which leaves
  \<open>scenario_one_freed\<close> with one deferred record.
\<close>

definition scenario_one_freed_calls :: "lm_call list" where
  "scenario_one_freed_calls = [Malloc 4096 FM_LM_T_TRANSIENT, Free 0x11000]"

definition scenario_one_freed :: lm_state where
  "scenario_one_freed =
     \<lparr> buffer_start = 0x10000, meta = zero_memory(1 := 1),
       free_regions = [\<lparr> start_page = 2, pages = 30 \<rparr>],
       freed_memories = [\<lparr> start_page = 1, pages = 1 \<rparr>],
       payload = zero_memory \<rparr>"


definition scenario_zero_freed :: lm_state where
  "scenario_zero_freed =
     \<lparr> buffer_start = 0x10000, meta = zero_memory,
       free_regions = [\<lparr> start_page = 1, pages = 31 \<rparr>],
       freed_memories = [\<lparr> start_page = 1, pages = 0 \<rparr>],
       payload = zero_memory \<rparr>"


section \<open>Evaluating the linear allocator\<close>

lemmas lm_eval =
  FM_PAGE_SIZE_def FM_LM_T_TRANSIENT_def FM_LM_T_PERSISTENT_def NULL_def fm_roundup_def
  fm_rounddown_def fm_lm_reinit_def store32_def load32_def mark_alloced_pages_def
  fetch_alloced_pages_def ptr_to_page_def page_to_ptr_def move_region_def fm_lm_free_def
  alloc_designated_free_pages_def alloc_free_pages_def alloc_free_pages_reverse_def
  merged_consecutive_pages_def restore_freed_region_def restore_all_freed_memories_def
  alloc_def fm_lm_malloc_def memcpy_def fm_lm_realloc_def Let_def
  word_le_nat_alt word_less_nat_alt

lemmas sm_eval =
  FM_SM_INVALID_SLAB_def slab_sizes_def PAGE_META_RESERVED_SIZE_def fm_sm_reinit_def
  slab_index_def ptr_to_index_def index_to_ptr_def popcountl_def ctzl_def
  bitmap_all_cleared_def bitmap_all_used_def bitmap_next_free_def bitmap_set_def
  bitmap_clear_def fm_sm_free_def free_empty_slabs_class_def free_empty_slabs_def
  lm_malloc_def fm_sm_malloc_def fm_sm_realloc_def

lemma scenario_S0_reinit:
  "fm_lm_reinit zero_memory 0x10000 (128 * 1024) 0 = Inr (0, scenario_S0)"
  by (simp add: lm_eval scenario_S0_def zero_memory_def)

lemma scenario_S1a_eval:
  "scenario_S1a =
     (0x11000, scenario_S0\<lparr> meta := zero_memory(1 := 1),
                             free_regions := [\<lparr> start_page = 2, pages = 30 \<rparr>] \<rparr>)"
  by (simp add: lm_eval scenario_S0_def scenario_S1a_def)

lemma scenario_S1b_eval:
  "scenario_S1b =
     (0x2F000, scenario_S0\<lparr> meta := zero_memory(1 := 1, 31 := 1),
                             free_regions := [\<lparr> start_page = 2, pages = 29 \<rparr>] \<rparr>)"
  by (simp add: scenario_S1a_eval scenario_S1b_def) (simp add: lm_eval scenario_S0_def)

lemma scenario_S2_freed_eval:
  "scenario_S2_freed =
     scenario_S0\<lparr> meta := zero_memory(1 := 1, 31 := 1),
                   free_regions := [\<lparr> start_page = 2, pages = 29 \<rparr>],
                   freed_memories := [\<lparr> start_page = 1, pages = 1 \<rparr>,
                                      \<lparr> start_page = 31, pages = 1 \<rparr>] \<rparr>"
  by (simp add: scenario_S1a_eval scenario_S1b_eval scenario_S2_freed_def)
     (simp add: lm_eval scenario_S0_def)

lemma scenario_S2_eval:
  "scenario_S2 =
     (0x12000, scenario_S2_freed\<lparr> meta := zero_memory(1 := 1, 31 := 1, 2 := 2),
                                   free_regions := [\<lparr> start_page = 4, pages = 27 \<rparr>] \<rparr>)"
  by (simp add: scenario_S2_freed_eval scenario_S2_def) (simp add: lm_eval scenario_S0_def)

lemma scenario_grow_eval:
  "scenario_grow =
     (0x11000, scenario_S0\<lparr> meta := zero_memory(1 := 1),
                             free_regions := [\<lparr> start_page = 3, pages = 29 \<rparr>] \<rparr>)"
  by (simp add: scenario_S1a_eval scenario_grow_def) (simp add: lm_eval scenario_S0_def)

lemma scenario_grow_again_eval:
  "fst scenario_grow_again = 0x13000 \<and>
   meta (snd scenario_grow_again) = zero_memory(1 := 1, 3 := 2) \<and>
   free_regions (snd scenario_grow_again) = [\<lparr> start_page = 5, pages = 27 \<rparr>] \<and>
   freed_memories (snd scenario_grow_again) = [\<lparr> start_page = 1, pages = 1 \<rparr>]"
  by (simp add: scenario_grow_eval scenario_grow_again_def)
     (simp add: lm_eval scenario_S0_def)

section \<open>Scenario S2\<close>

text \<open>
  C3, as stated: after \<open>lm_free(p1); lm_free(p2)\<close> the call
  \<open>q = lm_malloc(8192, TRANSIENT)\<close> returns page 1 and leaves the free list as the
  single record \<open>{3, 29}\<close>. The code returns another page and another list.
\<close>

theorem scenario_S2_counterexample:
  "\<not> (fst scenario_S2 = page_to_ptr scenario_S2_freed 1 \<and>
      free_regions (snd scenario_S2) = [\<lparr> start_page = 3, pages = 29 \<rparr>])"
  by (simp add: scenario_S2_eval)

text \<open>
  C3, amended: on the freshly reinitialized buffer of 32 pages, \<open>p1\<close> is page 1 and
  \<open>p2\<close> is page 31 with the free list \<open>{2, 29}\<close>; the two frees put \<open>{1, 1}\<close> and
  \<open>{31, 1}\<close> on the deferred list; the first forward scan of \<open>lm_malloc(8192, TRANSIENT)\<close>
  already fits in \<open>{2, 29}\<close>, so nothing is drained: \<open>q\<close> is page 2, the free list
  becomes \<open>{4, 27}\<close> and the deferred list keeps both records. Draining that deferred
  list would give the single region \<open>{1, 31}\<close>.
\<close>

theorem scenario_S2_no_drain:
  "fm_lm_reinit zero_memory 0x10000 (128 * 1024) 0 = Inr (0, scenario_S0) \<and>
   fst scenario_S1a = page_to_ptr scenario_S0 1 \<and>
   fst scenario_S1b = page_to_ptr scenario_S0 31 \<and>
   free_regions (snd scenario_S1b) = [\<lparr> start_page = 2, pages = 29 \<rparr>] \<and>
   freed_memories scenario_S2_freed =
     [\<lparr> start_page = 1, pages = 1 \<rparr>, \<lparr> start_page = 31, pages = 1 \<rparr>] \<and>
   fst scenario_S2 = page_to_ptr scenario_S0 2 \<and>
   free_regions (snd scenario_S2) = [\<lparr> start_page = 4, pages = 27 \<rparr>] \<and>
   freed_memories (snd scenario_S2) =
     [\<lparr> start_page = 1, pages = 1 \<rparr>, \<lparr> start_page = 31, pages = 1 \<rparr>] \<and>
   free_regions (restore_all_freed_memories scenario_S2_freed) =
     [\<lparr> start_page = 1, pages = 31 \<rparr>]"
  using scenario_S0_reinit
  by (simp add: scenario_S1a_eval scenario_S1b_eval scenario_S2_eval)
     (simp add: scenario_S2_freed_eval scenario_S0_def lm_eval)

section \<open>Validation in \<open>fm_lm_reinit\<close>\<close>

lemma and_4095_unat: "(x AND (4095 :: size_t) = 0) = (unat x mod 4096 = 0)"
proof -
  have "x AND 4095 = take_bit 12 x"
    using take_bit_eq_mask [of 12 x] by (simp add: mask_eq_exp_minus_1)
  then have "unat (x AND 4095) = unat x mod 4096"
    by (simp add: take_bit_eq_mod unat_mod)
  then show ?thesis
    by (metis unat_eq_0)
qed

text \<open>
  C4, as stated: every aligned buffer with an aligned size in [128 KiB, 4 GiB) is
  accepted. A size of 16 MiB is aligned and inside that range, and the call aborts.
\<close>

theorem fm_lm_reinit_16MiB_counterexample:
  "unat (0x10000 :: size_t) mod 4096 = 0 \<and>
   unat (16 * 1024 * 1024 :: size_t) mod 4096 = 0 \<and>
   128 * 1024 \<le> unat (16 * 1024 * 1024 :: size_t) \<and>
   unat (16 * 1024 * 1024 :: size_t) < 4 * 1024 * 1024 * 1024 \<and>
   fm_lm_reinit zero_memory 0x10000 (16 * 1024 * 1024) 0 = Inl Abort"
  by (simp add: fm_lm_reinit_def FM_PAGE_SIZE_def)

text \<open>
  C4, amended: \<open>fm_lm_reinit\<close> aborts if and only if the buffer address is not
  4096-byte aligned, the size is not 4096-byte aligned, or the size lies outside
  [128 KiB, 16 MiB); in every other case it returns 0.
\<close>

theorem fm_lm_reinit_abort_iff:
  "(fm_lm_reinit contents buffer sz zero_filled = Inl Abort) =
     (unat buffer mod 4096 \<noteq> 0 \<or> unat sz mod 4096 \<noteq> 0 \<or>
      unat sz < 128 * 1024 \<or> 16 * 1024 * 1024 \<le> unat sz) \<and>
   (fm_lm_reinit contents buffer sz zero_filled = Inl Abort \<or>
    (\<exists>st. fm_lm_reinit contents buffer sz zero_filled = Inr (0, st)))"
proof -
  have lt: "(sz < 128 * 1024) = (unat sz < 128 * 1024)"
    by (simp add: word_less_nat_alt)
  have ge: "(16 * 1024 * 1024 \<le> sz) = (16 * 1024 * 1024 \<le> unat sz)"
    by (simp add: word_le_nat_alt)
  show ?thesis
    unfolding fm_lm_reinit_def FM_PAGE_SIZE_def
    using and_4095_unat [of buffer] and_4095_unat [of sz] lt ge by auto
qed

theorem fm_lm_reinit_abort_iff_witness:
  "unat (0x10000 :: size_t) mod 4096 = 0 \<and> unat (128 * 1024 :: size_t) mod 4096 = 0 \<and>
   128 * 1024 \<le> unat (128 * 1024 :: size_t) \<and>
   unat (128 * 1024 :: size_t) < 16 * 1024 * 1024 \<and>
   fm_lm_reinit zero_memory 0x10000 (128 * 1024) 0 \<noteq> Inl Abort \<and>
   (\<exists>st. fm_lm_reinit zero_memory 0x10000 (128 * 1024) 0 = Inr (0, st))"
  using fm_lm_reinit_abort_iff [of zero_memory "0x10000" "128 * 1024" 0] by auto

section \<open>\<open>fm_lm_realloc\<close> on a null pointer\<close>

text \<open>
  C9: for every size and direction, \<open>fm_lm_realloc(NULL, s, t)\<close> returns the same
  result and leaves the same allocator state as \<open>fm_lm_malloc(s, t)\<close>.
\<close>

theorem fm_lm_realloc_NULL:
  "fm_lm_realloc st NULL sz t = fm_lm_malloc st sz t"
  by (simp add: fm_lm_realloc_def)

section \<open>Growing an allocation in place\<close>

text \<open>
  C2 at its failing input: after \<open>p = fm_lm_malloc(4096, TRANSIENT)\<close> on the fresh
  32-page buffer, \<open>fm_lm_realloc(p, 8192, TRANSIENT)\<close> returns \<open>p\<close> and takes page 2
  out of the free list, so the allocation holds pages 1 and 2; the metadata table still
  gives a run length of 1 at page 1, and a later \<open>fm_lm_free(p)\<close> hands back one page.
\<close>

theorem realloc_in_place_stale_metadata:
  "free_regions (snd scenario_S1a) = [\<lparr> start_page = 2, pages = 30 \<rparr>] \<and>
   fst scenario_grow = fst scenario_S1a \<and>
   ptr_to_page (snd scenario_grow) (fst scenario_grow) = 1 \<and>
   free_regions (snd scenario_grow) = [\<lparr> start_page = 3, pages = 29 \<rparr>] \<and>
   freed_memories (snd scenario_grow) = [] \<and>
   fetch_alloced_pages (snd scenario_grow) 1 = 1 \<and>
   freed_memories (fm_lm_free (snd scenario_grow) (fst scenario_grow)) =
     [\<lparr> start_page = 1, pages = 1 \<rparr>]"
  by (simp add: scenario_S1a_eval scenario_grow_eval) (simp add: scenario_S0_def lm_eval)

text \<open>
  C7 at its failing input: the allocation grown in place holds two pages, and
  \<open>fm_lm_realloc(p, 8192, TRANSIENT)\<close> for those same two pages does not return \<open>p\<close>:
  it reads the stale run length 1, allocates pages 3 and 4, copies one page and frees \<open>p\<close>.
\<close>

theorem realloc_same_size_moves:
  "fst scenario_grow = page_to_ptr scenario_S0 1 \<and>
   fst scenario_grow_again = page_to_ptr scenario_S0 3 \<and>
   fst scenario_grow_again \<noteq> fst scenario_grow \<and>
   free_regions (snd scenario_grow) = [\<lparr> start_page = 3, pages = 29 \<rparr>] \<and>
   free_regions (snd scenario_grow_again) = [\<lparr> start_page = 5, pages = 27 \<rparr>] \<and>
   freed_memories (snd scenario_grow) = [] \<and>
   freed_memories (snd scenario_grow_again) = [\<lparr> start_page = 1, pages = 1 \<rparr>] \<and>
   meta (snd scenario_grow) 3 = 0 \<and>
   meta (snd scenario_grow_again) 3 = 2"
  by (simp add: scenario_grow_eval scenario_grow_again_eval)
     (simp add: scenario_S0_def lm_eval zero_memory_def)

section \<open>The scans keep the free list in order\<close>


lemma front_carve:
  assumes N: "N \<le> 4095" and ok: "region_ok N r" and le: "n \<le> pages r" and n0: "n \<noteq> 0"
  defines "r' \<equiv> r\<lparr> start_page := start_page r + n, pages := pages r - n \<rparr>"
  defines "a \<equiv> \<lparr> start_page = start_page r, pages = n \<rparr>"
  shows "region_ok N a" and "region_end r' = region_end r"
    and "unat (start_page r') = unat (start_page r) + unat n"
    and "(pages r' = 0) = (n = pages r)"
    and "pages r' \<noteq> 0 \<Longrightarrow> region_ok N r'"
    and "region_pages r = region_pages a \<union> region_pages r'"
    and "region_pages a \<inter> region_pages r' = {}"
    and "pages r' = 0 \<Longrightarrow> region_pages r' = {}"
proof -
  have le': "unat n \<le> unat (pages r)" using le by (simp add: word_le_nat_alt)
  have n1: "1 \<le> unat n" using n0 by (simp add: unat_gt_0 Suc_le_eq)
  have b: "unat (start_page r) + unat (pages r) \<le> 4095" "1 \<le> unat (start_page r)"
    using ok N by (auto simp: region_ok_def region_end_def)
  have s: "unat (start_page r + n) = unat (start_page r) + unat n"
    using b le' by (simp add: unat_add_lem [THEN iffD1])
  have p: "unat (pages r - n) = unat (pages r) - unat n"
    using le by (simp add: unat_sub)
  show "region_ok N a" using ok le' n1 by (simp add: a_def region_ok_def region_end_def)
  show "region_end r' = region_end r" using s p le' by (simp add: r'_def region_end_def)
  show "unat (start_page r') = unat (start_page r) + unat n" using s by (simp add: r'_def)
  show "(pages r' = 0) = (n = pages r)" by (auto simp: r'_def)
  show "pages r' \<noteq> 0 \<Longrightarrow> region_ok N r'"
    using ok s p le' n1 unat_gt_0 [of "pages r - n"]
    by (simp add: r'_def region_ok_def region_end_def)
  show "region_pages r = region_pages a \<union> region_pages r'"
    using s p le' by (auto simp: r'_def a_def region_pages_def region_end_def)
  show "region_pages a \<inter> region_pages r' = {}"
    using s p le' by (auto simp: r'_def a_def region_pages_def region_end_def)
  show "pages r' = 0 \<Longrightarrow> region_pages r' = {}"
    by (simp add: region_pages_def region_end_def)
qed

lemma back_carve:
  assumes N: "N \<le> 4095" and ok: "region_ok N r" and le: "n \<le> pages r" and n0: "n \<noteq> 0"
  defines "r' \<equiv> r\<lparr> pages := pages r - n \<rparr>"
  defines "a \<equiv> \<lparr> start_page = start_page r + pages r - n, pages = n \<rparr>"
  shows "region_ok N a" and "start_page a \<noteq> 0"
    and "(pages r' = 0) = (n = pages r)"
    and "pages r' \<noteq> 0 \<Longrightarrow> region_ok N r'"
    and "region_pages r = region_pages a \<union> region_pages r'"
    and "region_pages a \<inter> region_pages r' = {}"
    and "pages r' = 0 \<Longrightarrow> region_pages r' = {}"
proof -
  have le': "unat n \<le> unat (pages r)" using le by (simp add: word_le_nat_alt)
  have n1: "1 \<le> unat n" using n0 by (simp add: unat_gt_0 Suc_le_eq)
  have b: "unat (start_page r) + unat (pages r) \<le> 4095" "1 \<le> unat (start_page r)"
    using ok N by (auto simp: region_ok_def region_end_def)
  have e: "unat (start_page r + pages r) = unat (start_page r) + unat (pages r)"
    using b by (simp add: unat_add_lem [THEN iffD1])
  have "n \<le> start_page r + pages r"
    using e le' by (simp add: word_le_nat_alt)
  then have s: "unat (start_page r + pages r - n) = unat (start_page r) + unat (pages r) - unat n"
    using e by (simp add: unat_sub)
  have p: "unat (pages r - n) = unat (pages r) - unat n"
    using le by (simp add: unat_sub)
  show "region_ok N a" using ok le' n1 s b by (simp add: a_def region_ok_def region_end_def)
  show "start_page a \<noteq> 0" using s b le' unat_gt_0 [of "start_page a"] by (simp add: a_def)
  show "(pages r' = 0) = (n = pages r)" by (auto simp: r'_def)
  show "pages r' \<noteq> 0 \<Longrightarrow> region_ok N r'"
    using ok p le' n1 unat_gt_0 [of "pages r - n"]
    by (auto simp: r'_def region_ok_def region_end_def)
  show "region_pages r = region_pages a \<union> region_pages r'"
    using s p le' by (auto simp: r'_def a_def region_pages_def region_end_def)
  show "region_pages a \<inter> region_pages r' = {}"
    using s p le' by (auto simp: r'_def a_def region_pages_def region_end_def)
  show "pages r' = 0 \<Longrightarrow> region_pages r' = {}"
    by (simp add: r'_def region_pages_def region_end_def)
qed

lemma region_ok_start_nonzero: "region_ok N r \<Longrightarrow> start_page r \<noteq> 0"
  using unat_gt_0 [of "start_page r"] by (simp add: region_ok_def)

lemma region_ok_nonempty: "region_ok N r \<Longrightarrow> unat (start_page r) \<in> region_pages r"
  by (simp add: region_ok_def region_pages_def region_end_def)

lemma cover_Cons [simp]: "cover (r # rs) = region_pages r \<union> cover rs"
  by (simp add: cover_def)

lemma cover_Nil [simp]: "cover [] = {}"
  by (simp add: cover_def)

lemma cover_append [simp]: "cover (xs @ ys) = cover xs \<union> cover ys"
  by (auto simp: cover_def)

lemma cover_rev [simp]: "cover (rev xs) = cover xs"
  by (simp add: cover_def)

lemma region_pages_subset_cover: "r \<in> set rs \<Longrightarrow> region_pages r \<subseteq> cover rs"
  by (auto simp: cover_def)

text \<open>A record inside the pages of a list lies after whatever ends before the list.\<close>

lemma after_cover:
  assumes "region_ok N y" and "region_pages y \<subseteq> cover rs"
    and "\<forall>r \<in> set rs. e < unat (start_page r)"
  shows "e < unat (start_page y)"
proof -
  have "unat (start_page y) \<in> cover rs"
    using assms(1,2) region_ok_nonempty by blast
  then obtain r where "r \<in> set rs" "unat (start_page y) \<in> region_pages r"
    by (auto simp: cover_def)
  then show ?thesis
    using assms(3) by (fastforce simp: region_pages_def)
qed

lemma before_cover:
  assumes "region_ok N y" and "region_pages y \<subseteq> cover rs"
    and "\<forall>r \<in> set rs. region_end r < s"
  shows "region_end y < s"
proof -
  have "region_end y - 1 \<in> region_pages y"
    using assms(1) by (auto simp: region_ok_def region_pages_def region_end_def)
  then have "region_end y - 1 \<in> cover rs"
    using assms(2) by blast
  then obtain r where "r \<in> set rs" "region_end y - 1 \<in> region_pages r"
    by (auto simp: cover_def)
  then show ?thesis
    using assms(3) by (fastforce simp: region_pages_def)
qed

lemma alloc_free_pages_loop_carved:
  assumes N: "N \<le> 4095" and n0: "n \<noteq> 0"
  shows "free_list_ok N rs \<Longrightarrow> alloc_free_pages_loop rs n = (res, rs') \<Longrightarrow>
         carved N rs res n rs' \<and> free_list_ok N rs'"
proof (induction rs arbitrary: res rs')
  case Nil
  then show ?case by (simp add: carved_def)
next
  case (Cons r rs)
  have okr: "region_ok N r" and okrs: "free_list_ok N rs"
    and sep: "\<forall>y \<in> set rs. region_end r < unat (start_page y)"
    using Cons.prems(1) by (auto simp: free_list_ok_def)
  have disj: "region_pages r \<inter> cover rs = {}"
    using sep by (fastforce simp: cover_def region_pages_def)
  show ?case
  proof (cases "n \<le> pages r")
    case True
    note fc = front_carve [OF N okr True n0]
    from True Cons.prems(2) have res: "res = start_page r"
      and rs': "rs' = (if pages r - n = 0 then rs
                       else r\<lparr> start_page := start_page r + n, pages := pages r - n \<rparr> # rs)"
      by (auto simp: Let_def move_region_def split: if_splits)
    have res0: "res \<noteq> 0" using okr by (simp add: res region_ok_start_nonzero)
    show ?thesis
    proof (cases "pages r - n = 0")
      case True
      then have "rs' = rs" using rs' by simp
      moreover have "region_pages r = region_pages \<lparr> start_page = res, pages = n \<rparr>"
        using fc(6) fc(8) True res by simp
      ultimately show ?thesis
        using res0 okrs disj fc(1) res by (auto simp: carved_def free_list_ok_def cover_def)
    next
      case False
      then have eq: "rs' = r\<lparr> start_page := start_page r + n, pages := pages r - n \<rparr> # rs"
        using rs' by simp
      have ok': "region_ok N (r\<lparr> start_page := start_page r + n, pages := pages r - n \<rparr>)"
        using fc(5) False by simp
      have "free_list_ok N rs'"
        using okrs sep ok' fc(2) by (simp add: eq free_list_ok_def)
      moreover have "carved N (r # rs) res n rs'"
        unfolding carved_def using res0 okrs ok' fc(1) fc(6) fc(7) disj res
        by (auto simp: eq free_list_ok_def cover_def)
      ultimately show ?thesis by simp
    qed
  next
    case False
    obtain res1 rs1 where l: "alloc_free_pages_loop rs n = (res1, rs1)"
      by (cases "alloc_free_pages_loop rs n")
    with False Cons.prems(2) have res: "res = res1" and rs': "rs' = r # rs1"
      by auto
    from Cons.IH [OF okrs l] have c: "carved N rs res1 n rs1" and ok1: "free_list_ok N rs1"
      by auto
    show ?thesis
    proof (cases "res1 = 0")
      case True
      then show ?thesis using c Cons.prems(1) res rs' by (simp add: carved_def)
    next
      case False
      with c have "cover rs1 \<subseteq> cover rs" by (auto simp: carved_def)
      then have sub: "\<forall>y \<in> set rs1. region_pages y \<subseteq> cover rs"
        using region_pages_subset_cover by blast
      have oks: "\<forall>y \<in> set rs1. region_ok N y"
        using ok1 by (simp add: free_list_ok_def)
      have "\<forall>y \<in> set rs1. region_end r < unat (start_page y)"
        using after_cover sub oks sep by blast
      then have "free_list_ok N rs'"
        using ok1 okr by (simp add: rs' free_list_ok_def)
      moreover have "carved N (r # rs) res n rs'"
        using c False okr disj unfolding carved_def res rs' by auto
      ultimately show ?thesis by simp
    qed
  qed
qed


lemma alloc_designated_free_pages_loop_carved:
  assumes N: "N \<le> 4095" and n0: "n \<noteq> 0"
  shows "free_list_ok N rs \<Longrightarrow> alloc_designated_free_pages_loop rs s n = (res, rs') \<Longrightarrow>
         carved N rs res n rs' \<and> free_list_ok N rs' \<and> (res \<noteq> 0 \<longrightarrow> res = s)"
proof (induction rs arbitrary: res rs')
  case Nil
  then show ?case by (simp add: carved_def)
next
  case (Cons r rs)
  have okr: "region_ok N r" and okrs: "free_list_ok N rs"
    and sep: "\<forall>y \<in> set rs. region_end r < unat (start_page y)"
    using Cons.prems(1) by (auto simp: free_list_ok_def)
  have disj: "region_pages r \<inter> cover rs = {}"
    using sep by (fastforce simp: cover_def region_pages_def)
  show ?case
  proof (cases "start_page r = s \<and> n \<le> pages r")
    case True
    then have le: "n \<le> pages r" and st: "start_page r = s" by auto
    note fc = front_carve [OF N okr le n0]
    from True Cons.prems(2) have res: "res = start_page r"
      and rs': "rs' = (if pages r - n = 0 then rs
                       else r\<lparr> start_page := start_page r + n, pages := pages r - n \<rparr> # rs)"
      by (auto simp: Let_def move_region_def split: if_splits)
    have res0: "res \<noteq> 0" using okr by (simp add: res region_ok_start_nonzero)
    show ?thesis
    proof (cases "pages r - n = 0")
      case True
      then have "rs' = rs" using rs' by simp
      moreover have "region_pages r = region_pages \<lparr> start_page = res, pages = n \<rparr>"
        using fc(6) fc(8) True res by simp
      ultimately show ?thesis
        using res0 okrs disj fc(1) res st by (auto simp: carved_def free_list_ok_def cover_def)
    next
      case False
      then have eq: "rs' = r\<lparr> start_page := start_page r + n, pages := pages r - n \<rparr> # rs"
        using rs' by simp
      have ok': "region_ok N (r\<lparr> start_page := start_page r + n, pages := pages r - n \<rparr>)"
        using fc(5) False by simp
      have "free_list_ok N rs'"
        using okrs sep ok' fc(2) by (simp add: eq free_list_ok_def)
      moreover have "carved N (r # rs) res n rs'"
        unfolding carved_def using res0 okrs ok' fc(1) fc(6) fc(7) disj res
        by (auto simp: eq free_list_ok_def cover_def)
      ultimately show ?thesis using res st by simp
    qed
  next
    case False
    obtain res1 rs1 where l: "alloc_designated_free_pages_loop rs s n = (res1, rs1)"
      by (cases "alloc_designated_free_pages_loop rs s n")
    with False Cons.prems(2) have res: "res = res1" and rs': "rs' = r # rs1"
      by auto
    from Cons.IH [OF okrs l] have c: "carved N rs res1 n rs1" and ok1: "free_list_ok N rs1"
      and eqs: "res1 \<noteq> 0 \<longrightarrow> res1 = s"
      by auto
    show ?thesis
    proof (cases "res1 = 0")
      case True
      then show ?thesis using c Cons.prems(1) res rs' by (simp add: carved_def)
    next
      case False
      with c have "cover rs1 \<subseteq> cover rs" by (auto simp: carved_def)
      then have sub: "\<forall>y \<in> set rs1. region_pages y \<subseteq> cover rs"
        using region_pages_subset_cover by blast
      have oks: "\<forall>y \<in> set rs1. region_ok N y"
        using ok1 by (simp add: free_list_ok_def)
      have "\<forall>y \<in> set rs1. region_end r < unat (start_page y)"
        using after_cover sub oks sep by blast
      then have "free_list_ok N rs'"
        using ok1 okr by (simp add: rs' free_list_ok_def)
      moreover have "carved N (r # rs) res n rs'"
        using c False okr disj unfolding carved_def res rs' by auto
      ultimately show ?thesis using eqs res by simp
    qed
  qed
qed

lemma free_list_ok_snoc:
  "free_list_ok N (xs @ [r]) =
     (free_list_ok N xs \<and> region_ok N r \<and> (\<forall>y \<in> set xs. region_end y < unat (start_page r)))"
  by (auto simp: free_list_ok_def sorted_wrt_append)

lemma alloc_free_pages_reverse_loop_carved:
  assumes N: "N \<le> 4095" and n0: "n \<noteq> 0"
  shows "free_list_ok N (rev xs) \<Longrightarrow> alloc_free_pages_reverse_loop xs n = (res, xs') \<Longrightarrow>
         carved N xs res n xs' \<and> free_list_ok N (rev xs')"
proof (induction xs arbitrary: res xs')
  case Nil
  then show ?case by (simp add: carved_def)
next
  case (Cons r xs)
  have okr: "region_ok N r" and okrs: "free_list_ok N (rev xs)"
    and sep: "\<forall>y \<in> set xs. region_end y < unat (start_page r)"
    using Cons.prems(1) by (auto simp: free_list_ok_snoc)
  have disj: "region_pages r \<inter> cover xs = {}"
    using sep by (fastforce simp: cover_def region_pages_def)
  show ?case
  proof (cases "n \<le> pages r")
    case True
    note bc = back_carve [OF N okr True n0]
    from True Cons.prems(2) have res: "res = start_page r + pages r - n"
      and xs': "xs' = (if pages r - n = 0 then xs else r\<lparr> pages := pages r - n \<rparr> # xs)"
      by (auto simp: Let_def split: if_splits)
    have res0: "res \<noteq> 0" using bc(2) by (simp add: res)
    show ?thesis
    proof (cases "pages r - n = 0")
      case True
      then have "xs' = xs" using xs' by simp
      moreover have "region_pages r = region_pages \<lparr> start_page = res, pages = n \<rparr>"
        using bc(5) bc(7) True res by simp
      ultimately show ?thesis
        using res0 okrs disj bc(1) res by (auto simp: carved_def)
    next
      case False
      then have eq: "xs' = r\<lparr> pages := pages r - n \<rparr> # xs"
        using xs' by simp
      have ok': "region_ok N (r\<lparr> pages := pages r - n \<rparr>)"
        using bc(4) False by simp
      have "free_list_ok N (rev xs')"
        using okrs sep ok' by (simp add: eq free_list_ok_snoc)
      moreover have "carved N (r # xs) res n xs'"
        unfolding carved_def using res0 bc(1) bc(5) bc(6) disj res
        by (auto simp: eq)
      ultimately show ?thesis by simp
    qed
  next
    case False
    obtain res1 xs1 where l: "alloc_free_pages_reverse_loop xs n = (res1, xs1)"
      by (cases "alloc_free_pages_reverse_loop xs n")
    with False Cons.prems(2) have res: "res = res1" and xs': "xs' = r # xs1"
      by auto
    from Cons.IH [OF okrs l] have c: "carved N xs res1 n xs1"
      and ok1: "free_list_ok N (rev xs1)"
      by auto
    show ?thesis
    proof (cases "res1 = 0")
      case True
      then show ?thesis using c Cons.prems(1) res xs' by (simp add: carved_def)
    next
      case False
      with c have "cover xs1 \<subseteq> cover xs" by (auto simp: carved_def)
      then have sub: "\<forall>y \<in> set xs1. region_pages y \<subseteq> cover xs"
        using region_pages_subset_cover by blast
      have oks: "\<forall>y \<in> set xs1. region_ok N y"
        using ok1 by (simp add: free_list_ok_def)
      have "\<forall>y \<in> set xs1. region_end y < unat (start_page r)"
        using before_cover sub oks sep by blast
      then have "free_list_ok N (rev xs')"
        using ok1 okr by (simp add: xs' free_list_ok_snoc)
      moreover have "carved N (r # xs) res n xs'"
        using c False okr disj unfolding carved_def res xs' by auto
      ultimately show ?thesis by simp
    qed
  qed
qed

section \<open>The merge pass and the insertion of a freed record\<close>


lemma free_list_ok_weak: "free_list_ok N rs \<Longrightarrow> weak_list_ok N rs"
  unfolding free_list_ok_def weak_list_ok_def
  by (auto elim: sorted_wrt_mono_rel [rotated])

lemma unat_region_end:
  "N \<le> 4095 \<Longrightarrow> region_ok N r \<Longrightarrow> unat (start_page r + pages r) = region_end r"
  by (simp add: region_ok_def region_end_def unat_add_lem [THEN iffD1])

lemma touching_iff:
  assumes "N \<le> 4095" "region_ok N a"
  shows "(start_page a + pages a = start_page b) = (region_end a = unat (start_page b))"
  using unat_region_end [OF assms] by (metis word_unat_eq_iff)

text \<open>Joining a record with the record that starts where it ends.\<close>

lemma join_regions:
  assumes N: "N \<le> 4095" and a: "region_ok N a" and b: "region_ok N b"
    and t: "region_end a = unat (start_page b)"
  defines "c \<equiv> a\<lparr> pages := pages a + pages b \<rparr>"
  shows "region_ok N c" and "region_end c = region_end b"
    and "region_pages c = region_pages a \<union> region_pages b"
    and "start_page c = start_page a"
proof -
  have "unat (pages a) + unat (pages b) \<le> 4095"
    using N a b t by (simp add: region_ok_def region_end_def)
  then have p: "unat (pages a + pages b) = unat (pages a) + unat (pages b)"
    by (simp add: unat_add_lem [THEN iffD1])
  show "region_ok N c" using a b t p by (simp add: c_def region_ok_def region_end_def)
  show "region_end c = region_end b" using t p by (simp add: c_def region_end_def)
  show "region_pages c = region_pages a \<union> region_pages b"
    using a b t p by (auto simp: c_def region_ok_def region_pages_def region_end_def)
  show "start_page c = start_page a" by (simp add: c_def)
qed

lemma merged_consecutive_pages_loop_ok:
  assumes N: "N \<le> 4095"
  shows "weak_list_ok N rs \<Longrightarrow>
         free_list_ok N (merged_consecutive_pages_loop rs) \<and>
         cover (merged_consecutive_pages_loop rs) = cover rs"
proof (induction rs rule: merged_consecutive_pages_loop.induct)
  case (1 a b rest)
  have oka: "region_ok N a" and okb: "region_ok N b"
    and ab: "region_end a \<le> unat (start_page b)"
    and arest: "\<forall>y \<in> set rest. region_end a \<le> unat (start_page y)"
    and brest: "\<forall>y \<in> set rest. region_end b \<le> unat (start_page y)"
    and wrest: "weak_list_ok N (b # rest)"
    using "1.prems" by (auto simp: weak_list_ok_def)
  show ?case
  proof (cases "start_page a + pages a = start_page b")
    case True
    then have t: "region_end a = unat (start_page b)"
      using touching_iff [OF N oka, of b] by blast
    note j = join_regions [OF N oka okb t]
    have "weak_list_ok N (a\<lparr> pages := pages a + pages b \<rparr> # rest)"
      using wrest j(1) j(2) brest by (simp add: weak_list_ok_def)
    from "1.IH"(1) [OF True this] show ?thesis
      using True j(3) by (auto simp: Un_assoc)
  next
    case False
    then have "region_end a \<noteq> unat (start_page b)"
      using touching_iff [OF N oka, of b] by blast
    then have lt: "region_end a < unat (start_page b)"
      using ab by simp
    from "1.IH"(2) [OF False wrest]
    have ok: "free_list_ok N (merged_consecutive_pages_loop (b # rest))"
      and cov: "cover (merged_consecutive_pages_loop (b # rest)) = cover (b # rest)"
      by auto
    have "\<forall>r \<in> set (b # rest). region_end a < unat (start_page r)"
    proof
      fix r assume "r \<in> set (b # rest)"
      then consider "r = b" | "r \<in> set rest" by auto
      then show "region_end a < unat (start_page r)"
      proof cases
        case 1 then show ?thesis using lt by simp
      next
        case 2
        then have "region_end b \<le> unat (start_page r)" using brest by blast
        moreover have "unat (start_page b) < region_end b"
          using okb by (simp add: region_ok_def region_end_def)
        ultimately show ?thesis using lt by linarith
      qed
    qed
    then have "\<forall>y \<in> set (merged_consecutive_pages_loop (b # rest)).
                 region_end a < unat (start_page y)"
      using after_cover ok cov region_pages_subset_cover
      by (metis free_list_ok_def)
    then show ?thesis
      using False ok cov oka by (simp add: free_list_ok_def)
  qed
qed (simp_all add: free_list_ok_def weak_list_ok_def)


lemma weak_list_ok_mid:
  "weak_list_ok N (xs @ a # ys) =
     (weak_list_ok N xs \<and> weak_list_ok N ys \<and> region_ok N a \<and>
      (\<forall>x \<in> set xs. region_end x \<le> unat (start_page a)) \<and>
      (\<forall>y \<in> set ys. region_end a \<le> unat (start_page y)) \<and>
      (\<forall>x \<in> set xs. \<forall>y \<in> set ys. region_end x \<le> unat (start_page y)))"
  by (auto simp: weak_list_ok_def sorted_wrt_append)

lemma free_list_ok_mid:
  "free_list_ok N (xs @ a # ys) =
     (free_list_ok N xs \<and> free_list_ok N ys \<and> region_ok N a \<and>
      (\<forall>x \<in> set xs. region_end x < unat (start_page a)) \<and>
      (\<forall>y \<in> set ys. region_end a < unat (start_page y)) \<and>
      (\<forall>x \<in> set xs. \<forall>y \<in> set ys. region_end x < unat (start_page y)))"
  by (auto simp: free_list_ok_def sorted_wrt_append)

lemma free_list_ok_append:
  "free_list_ok N (xs @ ys) =
     (free_list_ok N xs \<and> free_list_ok N ys \<and>
      (\<forall>x \<in> set xs. \<forall>y \<in> set ys. region_end x < unat (start_page y)))"
  by (auto simp: free_list_ok_def sorted_wrt_append)

lemma region_start_lt_end: "region_ok N r \<Longrightarrow> unat (start_page r) < region_end r"
  by (simp add: region_ok_def region_end_def)

text \<open>Two records in order that share no page: the one that starts first ends first.\<close>

lemma disjoint_order:
  assumes "region_ok N p" "region_ok N q" "region_pages p \<inter> region_pages q = {}"
    and "unat (start_page p) \<le> unat (start_page q)"
  shows "region_end p \<le> unat (start_page q)"
proof (rule ccontr)
  assume "\<not> region_end p \<le> unat (start_page q)"
  then have "unat (start_page q) \<in> region_pages p"
    using assms(4) by (simp add: region_pages_def)
  moreover have "unat (start_page q) \<in> region_pages q"
    using assms(2) by (rule region_ok_nonempty)
  ultimately show False using assms(3) by blast
qed

text \<open>Joining a freed record with the record that starts where it ends.\<close>

lemma join_front:
  assumes N: "N \<le> 4095" and a: "region_ok N a" and b: "region_ok N b"
    and t: "region_end a = unat (start_page b)"
  defines "c \<equiv> b\<lparr> start_page := start_page a, pages := pages b + pages a \<rparr>"
  shows "region_ok N c" and "region_end c = region_end b"
    and "region_pages c = region_pages a \<union> region_pages b"
    and "start_page c = start_page a"
proof -
  have "unat (pages a) + unat (pages b) \<le> 4095"
    using N a b t by (simp add: region_ok_def region_end_def)
  then have p: "unat (pages b + pages a) = unat (pages b) + unat (pages a)"
    by (simp add: unat_add_lem [THEN iffD1])
  show "region_ok N c" using a b t p by (simp add: c_def region_ok_def region_end_def)
  show "region_end c = region_end b" using t p by (simp add: c_def region_end_def)
  show "region_pages c = region_pages a \<union> region_pages b"
    using a b t p by (auto simp: c_def region_ok_def region_pages_def region_end_def)
  show "start_page c = start_page a" by (simp add: c_def)
qed

lemma restore_freed_region_loop_ok:
  assumes N: "N \<le> 4095" and fr: "region_ok N fr"
  shows "free_list_ok N (passed @ rest) \<Longrightarrow>
         region_pages fr \<inter> cover (passed @ rest) = {} \<Longrightarrow>
         \<forall>p \<in> set passed. start_page p \<le> start_page fr \<Longrightarrow>
         free_list_ok N (restore_freed_region_loop passed rest fr) \<and>
         cover (restore_freed_region_loop passed rest fr) =
           cover (passed @ rest) \<union> region_pages fr"
proof (induction rest arbitrary: passed)
  case Nil
  have okp: "free_list_ok N passed" using Nil.prems(1) by simp
  have "\<forall>p \<in> set passed. region_end p \<le> unat (start_page fr)"
  proof
    fix p assume p: "p \<in> set passed"
    then have "region_ok N p" using okp by (simp add: free_list_ok_def)
    moreover have "region_pages p \<inter> region_pages fr = {}"
      using Nil.prems(2) p region_pages_subset_cover [of p passed] by auto
    moreover have "unat (start_page p) \<le> unat (start_page fr)"
      using Nil.prems(3) p by (simp add: word_le_nat_alt)
    ultimately show "region_end p \<le> unat (start_page fr)"
      using disjoint_order fr by blast
  qed
  moreover have "weak_list_ok N passed" using okp by (rule free_list_ok_weak)
  moreover have "weak_list_ok N []" by (simp add: weak_list_ok_def)
  ultimately have "weak_list_ok N (passed @ [fr])"
    using fr by (simp add: weak_list_ok_mid)
  from merged_consecutive_pages_loop_ok [OF N this] show ?case
    by auto
next
  case (Cons r rs)
  have okp: "free_list_ok N passed" and okr: "region_ok N r" and okrs: "free_list_ok N rs"
    and p_r: "\<forall>x \<in> set passed. region_end x < unat (start_page r)"
    and r_rs: "\<forall>y \<in> set rs. region_end r < unat (start_page y)"
    and p_rs: "\<forall>x \<in> set passed. \<forall>y \<in> set rs. region_end x < unat (start_page y)"
    using Cons.prems(1) by (auto simp: free_list_ok_mid)
  have dp: "\<forall>p \<in> set passed. region_pages p \<inter> region_pages fr = {}"
    using Cons.prems(2) region_pages_subset_cover [of _ passed] by fastforce
  have dr: "region_pages fr \<inter> region_pages r = {}"
    using Cons.prems(2) by auto
  have p_fr: "\<forall>p \<in> set passed. region_end p \<le> unat (start_page fr)"
  proof
    fix p assume p: "p \<in> set passed"
    then have "region_ok N p" using okp by (simp add: free_list_ok_def)
    moreover have "unat (start_page p) \<le> unat (start_page fr)"
      using Cons.prems(3) p by (simp add: word_le_nat_alt)
    ultimately show "region_end p \<le> unat (start_page fr)"
      using disjoint_order fr dp p by blast
  qed
  show ?case
  proof (cases "start_page fr < start_page r")
    case False
    then have "\<forall>p \<in> set (passed @ [r]). start_page p \<le> start_page fr"
      using Cons.prems(3) by auto
    from Cons.IH [of "passed @ [r]"] this Cons.prems(1,2) False show ?thesis
      by simp
  next
    case True
    then have "unat (start_page fr) \<le> unat (start_page r)"
      by (simp add: word_less_nat_alt)
    then have fr_r: "region_end fr \<le> unat (start_page r)"
      using disjoint_order [OF fr okr dr] by simp
    have fr_rs: "\<forall>y \<in> set rs. region_end fr < unat (start_page y)"
      using r_rs fr_r region_start_lt_end [OF okr] by fastforce
    let ?attach = "passed \<noteq> [] \<and>
                   start_page (last passed) + pages (last passed) = start_page fr"
    show ?thesis
    proof (cases ?attach)
      case attach: True
      then obtain bl l where passed: "passed = bl @ [l]"
        by (cases passed rule: rev_cases) auto
      have okl: "region_ok N l" and okbl: "free_list_ok N bl"
        and bl_l: "\<forall>x \<in> set bl. region_end x < unat (start_page l)"
        using okp by (auto simp: passed free_list_ok_mid)
      have t: "region_end l = unat (start_page fr)"
        using attach touching_iff [OF N okl, of fr] by (simp add: passed)
      note j = join_regions [OF N okl fr t]
      let ?l' = "l\<lparr> pages := pages l + pages fr \<rparr>"
      have res: "restore_freed_region_loop passed (r # rs) fr =
                 merged_consecutive_pages_loop (bl @ ?l' # r # rs)"
        using True attach by (simp add: passed Let_def)
      have "weak_list_ok N (bl @ ?l' # r # rs)"
        unfolding weak_list_ok_mid
        using okbl okr okrs j(1) j(2) j(4) bl_l fr_r fr_rs p_r r_rs p_rs
        by (auto simp: passed free_list_ok_weak weak_list_ok_def free_list_ok_def
            intro: less_imp_le sorted_wrt_mono_rel [rotated])
      from merged_consecutive_pages_loop_ok [OF N this] show ?thesis
        unfolding res using j(3) by (auto simp: passed)
    next
      case no_attach: False
      show ?thesis
      proof (cases "start_page fr + pages fr = start_page r")
        case touch: True
        then have t: "region_end fr = unat (start_page r)"
          using touching_iff [OF N fr, of r] by blast
        note j = join_front [OF N fr okr t]
        let ?r' = "r\<lparr> start_page := start_page fr, pages := pages r + pages fr \<rparr>"
        have res: "restore_freed_region_loop passed (r # rs) fr =
                   merged_consecutive_pages_loop (passed @ ?r' # rs)"
          using True no_attach touch by (auto simp: Let_def move_region_def)
        have "weak_list_ok N (passed @ ?r' # rs)"
          unfolding weak_list_ok_mid
          using okp okrs j(1) j(2) j(4) p_fr r_rs p_rs
          by (auto simp: free_list_ok_weak intro: less_imp_le)
        from merged_consecutive_pages_loop_ok [OF N this] show ?thesis
          unfolding res using j(3) by auto
      next
        case no_touch: False
        then have "region_end fr \<noteq> unat (start_page r)"
          using touching_iff [OF N fr, of r] by blast
        then have fr_r': "region_end fr < unat (start_page r)"
          using fr_r by simp
        have res: "restore_freed_region_loop passed (r # rs) fr = passed @ fr # r # rs"
          using True no_attach no_touch by (auto simp: Let_def)
        have p_fr': "\<forall>x \<in> set passed. region_end x < unat (start_page fr)"
        proof (cases passed rule: rev_cases)
          case Nil
          then show ?thesis by simp
        next
          case (snoc bl l)
          have okl: "region_ok N l"
            and bl_l: "\<forall>x \<in> set bl. region_end x < unat (start_page l)"
            using okp by (auto simp: snoc free_list_ok_mid)
          have "region_end l \<noteq> unat (start_page fr)"
            using no_attach touching_iff [OF N okl, of fr] by (simp add: snoc)
          then have l_fr: "region_end l < unat (start_page fr)"
            using p_fr by (simp add: snoc)
          then have "\<forall>x \<in> set bl. region_end x < unat (start_page fr)"
            using bl_l region_start_lt_end [OF okl] by fastforce
          then show ?thesis using l_fr by (simp add: snoc)
        qed
        have "free_list_ok N (passed @ fr # r # rs)"
          unfolding free_list_ok_mid
          using okp fr Cons.prems(1) p_fr' fr_r' fr_rs p_r p_rs
          by (auto simp: free_list_ok_append)
        then show ?thesis unfolding res by auto
      qed
    qed
  qed
qed


section \<open>The drain\<close>

lemma restore_freed_region_fields [simp]:
  "meta (restore_freed_region st d) = meta st"
  "buffer_start (restore_freed_region st d) = buffer_start st"
  "freed_memories (restore_freed_region st d) = freed_memories st"
  "payload (restore_freed_region st d) = payload st"
  by (simp_all add: restore_freed_region_def)

lemma foldl_restore_fields [simp]:
  "meta (foldl restore_freed_region st ds) = meta st"
  "buffer_start (foldl restore_freed_region st ds) = buffer_start st"
  "freed_memories (foldl restore_freed_region st ds) = freed_memories st"
  "payload (foldl restore_freed_region st ds) = payload st"
  by (induction ds arbitrary: st; simp)+

lemma restore_all_freed_memories_fields [simp]:
  "meta (restore_all_freed_memories st) = meta st"
  "buffer_start (restore_all_freed_memories st) = buffer_start st"
  "freed_memories (restore_all_freed_memories st) = []"
  "payload (restore_all_freed_memories st) = payload st"
  by (simp_all add: restore_all_freed_memories_def)

lemma restore_freed_region_ok:
  assumes "N \<le> 4095" "region_ok N d" "free_list_ok N (free_regions st)"
    and "region_pages d \<inter> cover (free_regions st) = {}"
  shows "free_list_ok N (free_regions (restore_freed_region st d))"
    and "cover (free_regions (restore_freed_region st d)) = cover (free_regions st) \<union> region_pages d"
  using restore_freed_region_loop_ok [OF assms(1,2), of "[]" "free_regions st"] assms(3,4)
  by (simp_all add: restore_freed_region_def)

lemma foldl_restore_ok:
  assumes N: "N \<le> 4095"
  shows "free_list_ok N (free_regions st) \<Longrightarrow> \<forall>d \<in> set ds. region_ok N d \<Longrightarrow>
         regions_disjoint ds \<Longrightarrow> cover (free_regions st) \<inter> cover ds = {} \<Longrightarrow>
         free_list_ok N (free_regions (foldl restore_freed_region st ds)) \<and>
         cover (free_regions (foldl restore_freed_region st ds)) =
           cover (free_regions st) \<union> cover ds"
proof (induction ds arbitrary: st)
  case Nil
  then show ?case by simp
next
  case (Cons d ds)
  have d: "region_ok N d" and dd: "region_pages d \<inter> cover (free_regions st) = {}"
    using Cons.prems(2,4) by auto
  note r = restore_freed_region_ok [OF N d Cons.prems(1) dd]
  have "region_pages d \<inter> cover ds = {}"
    using Cons.prems(3) by (auto simp: cover_def)
  then have "cover (free_regions (restore_freed_region st d)) \<inter> cover ds = {}"
    using r(2) Cons.prems(4) by auto
  from Cons.IH [OF r(1) _ _ this] Cons.prems(2,3) show ?case
    using r(2) by auto
qed

lemma restore_all_freed_memories_inv:
  assumes "lm_inv N st"
  shows "lm_inv N (restore_all_freed_memories st)"
    and "cover (free_regions (restore_all_freed_memories st)) =
           cover (free_regions st) \<union> cover (freed_memories st)"
proof -
  have N: "N \<le> 4095" using assms by (simp add: lm_inv_def)
  have "free_list_ok N (free_regions (foldl restore_freed_region st (freed_memories st))) \<and>
        cover (free_regions (foldl restore_freed_region st (freed_memories st))) =
          cover (free_regions st) \<union> cover (freed_memories st)"
    using assms by (intro foldl_restore_ok [OF N]) (simp_all add: lm_inv_def)
  then show "lm_inv N (restore_all_freed_memories st)"
    and "cover (free_regions (restore_all_freed_memories st)) =
           cover (free_regions st) \<union> cover (freed_memories st)"
    using N by (simp_all add: lm_inv_def restore_all_freed_memories_def)
qed

lemma free_list_ok_sorted_coalesced:
  assumes N: "N \<le> 4095"
  shows "free_list_ok N rs \<Longrightarrow> sorted_coalesced rs"
proof (induction rs rule: induct_list012)
  case 1
  then show ?case by (simp add: sorted_coalesced_def)
next
  case (2 a)
  then show ?case by (simp add: sorted_coalesced_def)
next
  case (3 a b rs)
  have oka: "region_ok N a" and tl: "free_list_ok N (b # rs)"
    and ab: "region_end a < unat (start_page b)"
    and all: "\<forall>y \<in> set (b # rs). region_end a < unat (start_page y)"
    using "3.prems" by (auto simp: free_list_ok_def)
  have "start_page a + pages a \<noteq> start_page b"
    using touching_iff [OF N oka, of b] ab by auto
  moreover have "\<forall>y \<in> set (b # rs). start_page a < start_page y"
    using all region_start_lt_end [OF oka] by (fastforce simp: word_less_nat_alt)
  ultimately show ?case
    using "3.IH"(2) [OF tl] by (simp add: sorted_coalesced_def)
qed


section \<open>\<open>alloc\<close> and \<open>fm_lm_malloc\<close> on a well-formed state\<close>

lemma carved_rev: "carved N (rev rs) res n xs' \<Longrightarrow> carved N rs res n (rev xs')"
  by (auto simp: carved_def)

lemma alloc_carved:
  assumes N: "N \<le> 4095" and n0: "n \<noteq> 0" and ok: "free_list_ok N (free_regions st)"
    and a: "alloc st n t = (res, st')"
  shows "carved N (free_regions st) res n (free_regions st')"
    and "free_list_ok N (free_regions st')"
    and "st' = st\<lparr> free_regions := free_regions st' \<rparr>"
proof -
  show "st' = st\<lparr> free_regions := free_regions st' \<rparr>"
    using a by (auto simp: alloc_def alloc_free_pages_def alloc_free_pages_reverse_def
        split: if_splits prod.splits)
  show "carved N (free_regions st) res n (free_regions st')"
    and "free_list_ok N (free_regions st')"
  proof (atomize (full), cases "t = FM_LM_T_TRANSIENT")
    case True
    then obtain rs' where l: "alloc_free_pages_loop (free_regions st) n = (res, rs')"
      and s: "free_regions st' = rs'"
      using a by (auto simp: alloc_def alloc_free_pages_def split: prod.splits)
    from alloc_free_pages_loop_carved [OF N n0 ok l] show
      "carved N (free_regions st) res n (free_regions st') \<and> free_list_ok N (free_regions st')"
      by (simp add: s)
  next
    case False
    then obtain xs' where l: "alloc_free_pages_reverse_loop (rev (free_regions st)) n = (res, xs')"
      and s: "free_regions st' = rev xs'"
      using a by (auto simp: alloc_def alloc_free_pages_reverse_def split: prod.splits)
    have "free_list_ok N (rev (rev (free_regions st)))" using ok by simp
    from alloc_free_pages_reverse_loop_carved [OF N n0 this l] show
      "carved N (free_regions st) res n (free_regions st') \<and> free_list_ok N (free_regions st')"
      by (simp add: s carved_rev)
  qed
qed

text \<open>A request for no page at all: the scan takes the first record it meets as it is.\<close>

lemma alloc_free_pages_loop_zero:
  "region_ok N r \<Longrightarrow> alloc_free_pages_loop (r # rs) 0 = (start_page r, r # rs)"
  using unat_gt_0 [of "pages r"] by (auto simp: region_ok_def move_region_def)

lemma alloc_free_pages_reverse_loop_zero:
  "region_ok N r \<Longrightarrow>
   alloc_free_pages_reverse_loop (r # rs) 0 = (start_page r + pages r, r # rs)"
  using unat_gt_0 [of "pages r"] by (auto simp: region_ok_def)

lemma alloc_zero:
  assumes ok: "free_list_ok N (free_regions st)" and ne: "free_regions st \<noteq> []"
  shows "alloc st 0 t =
           (if t = FM_LM_T_TRANSIENT then start_page (hd (free_regions st))
            else start_page (last (free_regions st)) + pages (last (free_regions st)), st)"
proof (cases "t = FM_LM_T_TRANSIENT")
  case True
  obtain r rs where f: "free_regions st = r # rs" using ne by (cases "free_regions st") auto
  then have "region_ok N r" using ok by (simp add: free_list_ok_def)
  then show ?thesis
    using True f alloc_free_pages_loop_zero [of N r rs]
    by (simp add: alloc_def alloc_free_pages_def)
next
  case False
  obtain bl l where f: "free_regions st = bl @ [l]"
    using ne by (cases "free_regions st" rule: rev_cases) auto
  then have "region_ok N l" using ok by (simp add: free_list_ok_def)
  then show ?thesis
    using False f alloc_free_pages_reverse_loop_zero [of N l "rev bl"]
    by (simp add: alloc_def alloc_free_pages_reverse_def)
qed

lemma alloc_empty: "free_regions st = [] \<Longrightarrow> alloc st n t = (0, st)"
  by (simp add: alloc_def alloc_free_pages_def alloc_free_pages_reverse_def)

text \<open>A scan that returns page 0 has found nothing and has left the state alone.\<close>

lemma alloc_result_0:
  assumes N: "N \<le> 4095" and ok: "free_list_ok N (free_regions st)"
    and a: "alloc st n t = (0, st')"
  shows "st' = st"
proof (cases "n = 0")
  case n: True
  show ?thesis
  proof (cases "free_regions st = []")
    case True
    then show ?thesis using a alloc_empty [of st n t] by simp
  next
    case False
    have h: "region_ok N (hd (free_regions st))" and l: "region_ok N (last (free_regions st))"
      using ok False by (simp_all add: free_list_ok_def)
    have "start_page (hd (free_regions st)) \<noteq> 0"
      using h by (rule region_ok_start_nonzero)
    moreover have "start_page (last (free_regions st)) + pages (last (free_regions st)) \<noteq> 0"
      using unat_region_end [OF N l] region_start_lt_end [OF l] unat_gt_0 by fastforce
    ultimately show ?thesis
      using a alloc_zero [OF ok False, of t] n by (auto split: if_splits)
  qed
next
  case False
  from alloc_carved [OF N False ok a] have "carved N (free_regions st) 0 n (free_regions st')"
    and "st' = st\<lparr> free_regions := free_regions st' \<rparr>" by auto
  then show ?thesis by (auto simp: carved_def)
qed

lemma page_to_ptr_nonzero:
  assumes "buffer_fits N st" "N \<le> 4095" "1 \<le> unat page" "unat page \<le> N"
  shows "page_to_ptr st page \<noteq> 0"
proof -
  have m: "unat (page * 4096) = unat page * 4096"
    using assms(2,4) by (simp add: unat_mult_lem [THEN iffD1])
  have "unat (buffer_start st) + unat page * 4096 < 2 ^ 64"
    using assms(1,4) by (simp add: buffer_fits_def)
  then have "unat (buffer_start st + page * 4096) = unat (buffer_start st) + unat page * 4096"
    using m by (simp add: unat_add_lem [THEN iffD1])
  then have "0 < unat (page_to_ptr st page)"
    using assms(3) by (simp add: page_to_ptr_def FM_PAGE_SIZE_def)
  then show ?thesis by (simp add: unat_gt_0)
qed

lemma page_to_ptr_aligned:
  assumes "buffer_fits N st" "N \<le> 4095" "unat page \<le> N"
  shows "page_to_ptr st page AND (FM_PAGE_SIZE - 1) = 0"
proof -
  have m: "unat (page * 4096) = unat page * 4096"
    using assms(2,3) by (simp add: unat_mult_lem [THEN iffD1])
  have "unat (buffer_start st) + unat page * 4096 < 2 ^ 64"
    using assms(1,3) by (simp add: buffer_fits_def)
  then have "unat (buffer_start st + page * 4096) = unat (buffer_start st) + unat page * 4096"
    using m by (simp add: unat_add_lem [THEN iffD1])
  moreover have "unat (buffer_start st) mod 4096 = 0"
    using assms(1) and_4095_unat [of "buffer_start st"] by (simp add: buffer_fits_def FM_PAGE_SIZE_def)
  ultimately have "unat (page_to_ptr st page) mod 4096 = 0"
    by (simp add: page_to_ptr_def FM_PAGE_SIZE_def)
  then show ?thesis
    using and_4095_unat [of "page_to_ptr st page"] by (simp add: FM_PAGE_SIZE_def)
qed

lemma alloc_result_bounds:
  assumes N: "N \<le> 4095" and ok: "free_list_ok N (free_regions st)"
    and a: "alloc st n t = (res, st')" and r: "res \<noteq> 0"
  shows "1 \<le> unat res" and "unat res \<le> N"
proof -
  show "1 \<le> unat res" using r unat_gt_0 [of res] by simp
  show "unat res \<le> N"
  proof (cases "n = 0")
    case n: True
    have ne: "free_regions st \<noteq> []"
      using a r alloc_empty [of st n t] by auto
    have h: "region_ok N (hd (free_regions st))" and l: "region_ok N (last (free_regions st))"
      using ok ne by (simp_all add: free_list_ok_def)
    have "unat (start_page (hd (free_regions st))) \<le> N"
      using h by (simp add: region_ok_def region_end_def)
    moreover have "unat (start_page (last (free_regions st)) + pages (last (free_regions st))) \<le> N"
      using unat_region_end [OF N l] l by (simp add: region_ok_def)
    ultimately show ?thesis
      using a alloc_zero [OF ok ne, of t] n by (auto split: if_splits)
  next
    case False
    from alloc_carved(1) [OF N False ok a] r
    have "region_ok N \<lparr> start_page = res, pages = n \<rparr>" by (simp add: carved_def)
    then show ?thesis by (simp add: region_ok_def region_end_def)
  qed
qed

lemma alloc_fields:
  assumes "alloc st n t = (res, st')"
  shows "buffer_start st' = buffer_start st" and "meta st' = meta st"
    and "freed_memories st' = freed_memories st" and "payload st' = payload st"
  using assms
  by (auto simp: alloc_def alloc_free_pages_def alloc_free_pages_reverse_def
      split: if_splits prod.splits)

lemma fm_lm_malloc_NULL:
  assumes inv: "lm_inv N st" and fits: "buffer_fits N st"
    and null: "fst (fm_lm_malloc st sz t) = NULL"
  shows "snd (fm_lm_malloc st sz t) = restore_all_freed_memories st"
proof -
  let ?n = "fm_roundup sz FM_PAGE_SIZE div FM_PAGE_SIZE"
  have N: "N \<le> 4095" and ok: "free_list_ok N (free_regions st)"
    using inv by (simp_all add: lm_inv_def)
  obtain page st1 where a1: "alloc st ?n t = (page, st1)"
    by (cases "alloc st ?n t")
  have nz: "page_to_ptr s' pg \<noteq> 0"
    if "alloc s ?n t = (pg, s')" "pg \<noteq> 0" "free_list_ok N (free_regions s)" "buffer_fits N s"
    for s s' pg
  proof -
    have "buffer_fits N s'"
      using that(4) alloc_fields(1) [OF that(1)] by (simp add: buffer_fits_def)
    then show ?thesis
      using alloc_result_bounds [OF N that(3) that(1) that(2)] N
      by (intro page_to_ptr_nonzero) auto
  qed
  have p0: "page = 0"
  proof (rule ccontr)
    assume "page \<noteq> 0"
    then show False
      using null a1 nz [OF a1 _ ok fits] by (simp add: fm_lm_malloc_def Let_def NULL_def)
  qed
  then have st1: "st1 = st" using alloc_result_0 [OF N ok] a1 by simp
  let ?d = "restore_all_freed_memories st"
  obtain page2 st2 where a2: "alloc ?d ?n t = (page2, st2)"
    by (cases "alloc ?d ?n t")
  have okd: "free_list_ok N (free_regions ?d)"
    using restore_all_freed_memories_inv(1) [OF inv] by (simp add: lm_inv_def)
  have fitsd: "buffer_fits N ?d" using fits by (simp add: buffer_fits_def)
  have p20: "page2 = 0"
  proof (rule ccontr)
    assume "page2 \<noteq> 0"
    then show False
      using null a1 p0 st1 a2 nz [OF a2 _ okd fitsd]
      by (simp add: fm_lm_malloc_def Let_def NULL_def)
  qed
  then have "st2 = ?d" using alloc_result_0 [OF N okd] a2 by simp
  then show ?thesis
    using a1 p0 st1 a2 p20 by (simp add: fm_lm_malloc_def Let_def)
qed

lemma restore_all_freed_memories_empty:
  "freed_memories st = [] \<Longrightarrow> restore_all_freed_memories st = st"
  by (simp add: restore_all_freed_memories_def)

lemma fm_roundup_0 [simp]: "fm_roundup 0 r = 0"
  by (simp add: fm_roundup_def)

lemma fm_lm_malloc_zero:
  fixes t :: int
  assumes N: "N \<le> 4095" and ok: "free_list_ok N (free_regions st)"
    and ne: "free_regions st \<noteq> []"
  defines "pg \<equiv> (if t = FM_LM_T_TRANSIENT then start_page (hd (free_regions st))
                  else start_page (last (free_regions st)) + pages (last (free_regions st)))"
  shows "fm_lm_malloc st 0 t = (page_to_ptr st pg, st\<lparr> meta := (meta st)(pg := 0) \<rparr>)"
    and "1 \<le> unat pg" and "unat pg \<le> N"
proof -
  have a: "alloc st 0 t = (pg, st)"
    using alloc_zero [OF ok ne, of t] by (simp add: pg_def)
  have h: "region_ok N (hd (free_regions st))" and l: "region_ok N (last (free_regions st))"
    using ok ne by (simp_all add: free_list_ok_def)
  have "1 \<le> unat (start_page (hd (free_regions st)))"
     "unat (start_page (hd (free_regions st))) \<le> N"
    using h by (simp_all add: region_ok_def region_end_def)
  moreover have "1 \<le> unat (start_page (last (free_regions st)) + pages (last (free_regions st)))"
     "unat (start_page (last (free_regions st)) + pages (last (free_regions st))) \<le> N"
    using unat_region_end [OF N l] l by (simp_all add: region_ok_def region_end_def)
  ultimately show b: "1 \<le> unat pg" "unat pg \<le> N"
    by (simp_all add: pg_def)
  then have "pg \<noteq> 0" using unat_gt_0 [of pg] by simp
  then show "fm_lm_malloc st 0 t = (page_to_ptr st pg, st\<lparr> meta := (meta st)(pg := 0) \<rparr>)"
    using a by (simp add: fm_lm_malloc_def Let_def mark_alloced_pages_def page_to_ptr_def)
qed

text \<open>
  A request of size 0 on a non-empty free list changes the metadata table only, so the
  invariant of the two lists and the placement of the buffer are kept by it.
\<close>

lemma fm_lm_malloc_zero_inv:
  fixes t :: int
  assumes "lm_inv N st" and "free_regions st \<noteq> []"
  shows "lm_inv N (snd (fm_lm_malloc st 0 t))"
    and "buffer_fits N (snd (fm_lm_malloc st 0 t)) = buffer_fits N st"
proof -
  have "N \<le> 4095" and "free_list_ok N (free_regions st)"
    using assms(1) by (simp_all add: lm_inv_def)
  from fm_lm_malloc_zero(1) [OF this assms(2), of t]
  show "lm_inv N (snd (fm_lm_malloc st 0 t))"
    and "buffer_fits N (snd (fm_lm_malloc st 0 t)) = buffer_fits N st"
    using assms(1) by (simp_all add: lm_inv_def buffer_fits_def)
qed

text \<open>
  In a free list in order no record reaches the page after the last page of the last
  record.
\<close>

lemma region_end_last_not_in_cover:
  assumes ok: "free_list_ok N rs" and ne: "rs \<noteq> []"
  shows "region_end (last rs) \<notin> cover rs"
proof -
  have "region_end r \<le> region_end (last rs)" if r: "r \<in> set rs" for r
  proof (cases "r = last rs")
    case True
    then show ?thesis by simp
  next
    case False
    have rs: "rs = butlast rs @ [last rs]" using ne by simp
    then have "r \<in> set (butlast rs)" using r False
      by (metis Un_iff empty_iff insert_iff list.set(1) list.set(2) set_append)
    moreover have "sorted_wrt (\<lambda>a b. region_end a < unat (start_page b)) (butlast rs @ [last rs])"
      using ok rs by (simp add: free_list_ok_def)
    ultimately have "region_end r < unat (start_page (last rs))"
      by (simp add: sorted_wrt_append)
    then show ?thesis by (simp add: region_end_def)
  qed
  then show ?thesis
    by (fastforce simp: cover_def region_pages_def)
qed


section \<open>The metadata table\<close>

lemma load32_store32: "load32 (store32 m a v) a = v"
  apply (simp add: load32_def store32_def)
  apply (rule bit_word_eqI)
  apply (auto simp: bit_simps)
  subgoal for n by (cases "n < 24") simp_all
  done

lemma fm_roundup_4_bounds:
  assumes "unat x \<le> 4096"
  shows "unat x \<le> unat (fm_roundup x 4)" and "unat (fm_roundup x 4) \<le> unat x + 3"
proof -
  have "(NOT x + 1) AND 3 = take_bit 2 (- x)"
    using take_bit_eq_mask [of 2 "- x"] by (simp add: mask_eq_exp_minus_1 minus_eq_not_plus_1)
  then have "unat ((NOT x + 1) AND 3) < 4"
    by (simp add: unat_mod take_bit_eq_mod)
  then have b: "unat ((NOT x + 1) AND 3) \<le> 3" by simp
  then have "unat (x + ((NOT x + 1) AND 3)) = unat x + unat ((NOT x + 1) AND 3)"
    using assms by (simp add: unat_add_lem [THEN iffD1])
  then show "unat x \<le> unat (fm_roundup x 4)" and "unat (fm_roundup x 4) \<le> unat x + 3"
    using b by (simp_all add: fm_roundup_def)
qed

lemma aligned_page_offsets:
  assumes "unat pg \<le> 4095"
  defines "al \<equiv> fm_roundup (pg + 1) 4"
  shows "unat pg < unat al" and "unat al \<le> unat pg + 4"
    and "unat (al + 1) = unat al + 1" and "unat (al + 2) = unat al + 2"
    and "unat (al + 3) = unat al + 3"
proof -
  have p1: "unat (pg + 1) = unat pg + 1"
    using assms(1) by (simp add: unat_add_lem [THEN iffD1])
  then have "unat (pg + 1) \<le> 4096" using assms(1) by simp
  note b = fm_roundup_4_bounds [OF this]
  show "unat pg < unat al" using b(1) p1 by (simp add: al_def)
  show u: "unat al \<le> unat pg + 4" using b(2) p1 by (simp add: al_def)
  show "unat (al + 1) = unat al + 1" "unat (al + 2) = unat al + 2"
    "unat (al + 3) = unat al + 3"
    using u assms(1) by (simp_all add: unat_add_lem [THEN iffD1])
qed

lemma store32_other:
  "x \<noteq> a \<Longrightarrow> x \<noteq> a + 1 \<Longrightarrow> x \<noteq> a + 2 \<Longrightarrow> x \<noteq> a + 3 \<Longrightarrow> store32 m a v x = m x"
  by (simp add: store32_def)

lemma ucast_byte_small:
  fixes n :: size_t
  assumes "n < 0xFF"
  shows "(ucast n :: 8 word) < 0xFF" and "(ucast (ucast n :: 8 word) :: size_t) = n"
proof -
  have n: "unat n < 255" using assms by (simp add: word_less_nat_alt)
  have u: "unat (ucast n :: 8 word) = unat n"
    using n by (simp add: unsigned_ucast_eq take_bit_eq_mod)
  show "(ucast n :: 8 word) < 0xFF" using u n by (simp add: word_less_nat_alt)
  have "unat (ucast (ucast n :: 8 word) :: size_t) = unat (ucast n :: 8 word)"
    using u n by (simp add: unsigned_ucast_eq take_bit_eq_mod unat_mod)
  then show "(ucast (ucast n :: 8 word) :: size_t) = n"
    using u by (simp add: word_unat_eq_iff)
qed

lemma ucast_32_64:
  fixes n :: size_t
  assumes "unat n \<le> 4095"
  shows "(ucast (ucast n :: 32 word) :: size_t) = n"
proof -
  have u: "unat (ucast n :: 32 word) = unat n"
    using assms by (simp add: unsigned_ucast_eq take_bit_eq_mod)
  have "unat (ucast (ucast n :: 32 word) :: size_t) = unat (ucast n :: 32 word)"
    using u assms by (simp add: unsigned_ucast_eq take_bit_eq_mod unat_mod)
  then show ?thesis using u by (simp add: word_unat_eq_iff)
qed

lemma byte_not_less_255: "\<not> (w :: 8 word) < 0xFF \<Longrightarrow> w = 0xFF"
  by (simp add: word_less_nat_alt word_unat_eq_iff)
     (use unsigned_less [of w, where ?'a = nat] in simp)

text \<open>Reading back the length that \<open>mark_alloced_pages\<close> has stored.\<close>

lemma fetch_mark_same:
  assumes pg: "unat pg \<le> 4095" and n: "unat n \<le> 4095"
  shows "fetch_alloced_pages (mark_alloced_pages st pg n) pg = n"
    and "meta (mark_alloced_pages st pg n) pg = 0xFF \<longrightarrow> 255 \<le> unat n"
proof -
  note o = aligned_page_offsets [OF pg]
  let ?al = "fm_roundup (pg + 1) 4"
  have ne: "pg \<noteq> ?al" "pg \<noteq> ?al + 1" "pg \<noteq> ?al + 2" "pg \<noteq> ?al + 3"
    using o by auto
  show "fetch_alloced_pages (mark_alloced_pages st pg n) pg = n"
  proof (cases "n < 0xFF")
    case True
    then show ?thesis
      using ucast_byte_small [OF True]
      by (simp add: fetch_alloced_pages_def mark_alloced_pages_def Let_def)
  next
    case False
    have "meta (mark_alloced_pages st pg n) pg = 0xFF"
      using False ne by (simp add: mark_alloced_pages_def Let_def store32_other)
    then show ?thesis
      using False ucast_32_64 [OF n]
      by (simp add: fetch_alloced_pages_def mark_alloced_pages_def Let_def load32_store32)
  qed
  show "meta (mark_alloced_pages st pg n) pg = 0xFF \<longrightarrow> 255 \<le> unat n"
  proof (cases "n < 0xFF")
    case True
    then show ?thesis
      using ucast_byte_small(1) [OF True] by (auto simp: mark_alloced_pages_def)
  next
    case False
    then show ?thesis by (simp add: word_less_nat_alt)
  qed
qed

text \<open>\<open>mark_alloced_pages\<close> writes only table entries of the pages of the new run.\<close>

lemma mark_frame:
  assumes N: "N \<le> 4095" and new: "region_ok N \<lparr> start_page = pg, pages = n \<rparr>"
    and x: "unat x \<notin> region_pages \<lparr> start_page = pg, pages = n \<rparr>"
  shows "meta (mark_alloced_pages st pg n) x = meta st x"
proof -
  have pg: "unat pg \<le> 4095" and n1: "1 \<le> unat n"
    using N new by (simp_all add: region_ok_def region_end_def)
  note o = aligned_page_offsets [OF pg]
  let ?al = "fm_roundup (pg + 1) 4"
  have out: "unat x < unat pg \<or> unat pg + unat n \<le> unat x"
    using x by (auto simp: region_pages_def region_end_def)
  then have xp: "x \<noteq> pg" using n1 by auto
  show ?thesis
  proof (cases "n < 0xFF")
    case True
    then show ?thesis using xp by (simp add: mark_alloced_pages_def)
  next
    case False
    then have "255 \<le> unat n" by (simp add: word_less_nat_alt)
    then have "x \<noteq> ?al" "x \<noteq> ?al + 1" "x \<noteq> ?al + 2" "x \<noteq> ?al + 3"
      using o out by auto
    then show ?thesis
      using False xp by (simp add: mark_alloced_pages_def Let_def store32_other)
  qed
qed

text \<open>\<open>fetch_alloced_pages\<close> reads only table entries of the pages of the run it finds.\<close>

lemma fetch_cong:
  assumes N: "N \<le> 4095"
    and old: "region_ok N \<lparr> start_page = q, pages = fetch_alloced_pages st q \<rparr>"
    and tag: "meta st q = 0xFF \<longrightarrow> 255 \<le> unat (fetch_alloced_pages st q)"
    and same: "\<forall>x. unat x \<in> region_pages \<lparr> start_page = q, pages = fetch_alloced_pages st q \<rparr>
                 \<longrightarrow> meta st' x = meta st x"
  shows "fetch_alloced_pages st' q = fetch_alloced_pages st q" and "meta st' q = meta st q"
proof -
  have q: "unat q \<le> 4095" and l1: "1 \<le> unat (fetch_alloced_pages st q)"
    using N old by (simp_all add: region_ok_def region_end_def)
  note o = aligned_page_offsets [OF q]
  let ?al = "fm_roundup (q + 1) 4"
  have inq: "unat q \<in> region_pages \<lparr> start_page = q, pages = fetch_alloced_pages st q \<rparr>"
    using l1 by (simp add: region_pages_def region_end_def)
  then show mq: "meta st' q = meta st q" using same by blast
  show "fetch_alloced_pages st' q = fetch_alloced_pages st q"
  proof (cases "meta st q < 0xFF")
    case True
    then show ?thesis using mq by (simp add: fetch_alloced_pages_def Let_def)
  next
    case False
    then have "meta st q = 0xFF"
      by (rule byte_not_less_255)
    then have "255 \<le> unat (fetch_alloced_pages st q)" using tag by simp
    then have "\<forall>k \<in> {?al, ?al + 1, ?al + 2, ?al + 3}.
                 unat k \<in> region_pages \<lparr> start_page = q, pages = fetch_alloced_pages st q \<rparr>"
      using o by (auto simp: region_pages_def region_end_def)
    then have "meta st' ?al = meta st ?al" "meta st' (?al + 1) = meta st (?al + 1)"
      "meta st' (?al + 2) = meta st (?al + 2)" "meta st' (?al + 3) = meta st (?al + 3)"
      using same by auto
    then show ?thesis
      using mq by (simp add: fetch_alloced_pages_def Let_def load32_def)
  qed
qed


section \<open>The invariant along a trace of calls\<close>

lemma ptr_to_page_page_to_ptr:
  assumes "unat pg \<le> 4095"
  shows "ptr_to_page st (page_to_ptr st pg) = pg"
proof -
  have m: "unat (pg * 4096) = unat pg * 4096"
    using assms by (simp add: unat_mult_lem [THEN iffD1])
  have "unat (pg * 4096 div 4096) = unat pg"
    using m by (simp add: unat_div)
  then have "pg * 4096 div 4096 = pg" by (simp add: word_unat_eq_iff)
  then show ?thesis by (simp add: ptr_to_page_def page_to_ptr_def FM_PAGE_SIZE_def)
qed

lemma live_region_cong:
  "buffer_start st' = buffer_start st \<Longrightarrow> meta st' = meta st \<Longrightarrow>
   live_region st' p = live_region st p"
  by (simp add: live_region_def ptr_to_page_def fetch_alloced_pages_def Let_def)

lemma mark_alloced_pages_fields [simp]:
  "buffer_start (mark_alloced_pages st pg n) = buffer_start st"
  "free_regions (mark_alloced_pages st pg n) = free_regions st"
  "freed_memories (mark_alloced_pages st pg n) = freed_memories st"
  "payload (mark_alloced_pages st pg n) = payload st"
  by (simp_all add: mark_alloced_pages_def Let_def)

lemma lm_inv_live_subset:
  "lm_inv_live N st L \<Longrightarrow> L' \<subseteq> L \<Longrightarrow> lm_inv_live N st L'"
  unfolding lm_inv_live_def by blast

text \<open>The drain keeps the invariant.\<close>

lemma restore_all_freed_memories_inv_live:
  assumes "lm_inv_live N st L"
  shows "lm_inv_live N (restore_all_freed_memories st) L"
proof -
  let ?d = "restore_all_freed_memories st"
  have inv: "lm_inv N st" using assms by (simp add: lm_inv_live_def)
  note d = restore_all_freed_memories_inv [OF inv]
  have lr: "live_region ?d p = live_region st p" for p
    by (rule live_region_cong) simp_all
  have "live_ok N ?d p" if "p \<in> L" for p
  proof -
    have "live_ok N st p" using assms that by (simp add: lm_inv_live_def)
    then show ?thesis
      unfolding live_ok_def lr d(2)
      by (auto simp: page_to_ptr_def ptr_to_page_def)
  qed
  then show ?thesis
    using assms d(1) by (simp add: lm_inv_live_def lr)
qed

text \<open>A successful scan followed by \<open>mark_alloced_pages\<close> keeps the invariant, with
  the new pointer live.\<close>

lemma malloc_commit:
  assumes inv: "lm_inv_live N s L" and n0: "n \<noteq> 0"
    and a: "alloc s n t = (page, s1)" and p0: "page \<noteq> 0"
  shows "lm_inv_live N (mark_alloced_pages s1 page n) (insert (page_to_ptr s1 page) L)"
    and "unat page \<in> cover (free_regions s)"
proof -
  let ?s' = "mark_alloced_pages s1 page n"
  let ?p = "page_to_ptr s1 page"
  let ?new = "\<lparr> start_page = page, pages = n \<rparr>"
  have lmi: "lm_inv N s" and N: "N \<le> 4095" and ok: "free_list_ok N (free_regions s)"
    using inv by (simp_all add: lm_inv_live_def lm_inv_def)
  note ac = alloc_carved [OF N n0 ok a]
  note af = alloc_fields [OF a]
  have new: "region_ok N ?new"
    and cov: "cover (free_regions s) = cover (free_regions s1) \<union> region_pages ?new"
    and dis: "cover (free_regions s1) \<inter> region_pages ?new = {}"
    using ac(1) p0 by (simp_all add: carved_def)
  have pg: "unat page \<le> 4095" and nn: "unat n \<le> 4095"
    using new N by (simp_all add: region_ok_def region_end_def)
  show "unat page \<in> cover (free_regions s)"
    using cov region_ok_nonempty [OF new] by simp
  have lmi': "lm_inv N ?s'"
    using lmi ac(2) cov by (auto simp: lm_inv_def af)
  have old: "live_ok N ?s' q \<and> live_region ?s' q = live_region s q" if "q \<in> L" for q
  proof -
    have lo: "live_ok N s q" using inv that by (simp add: lm_inv_live_def)
    let ?pq = "ptr_to_page s q"
    have okq: "region_ok N \<lparr> start_page = ?pq, pages = fetch_alloced_pages s ?pq \<rparr>"
      and tag: "meta s ?pq = 0xFF \<longrightarrow> 255 \<le> unat (fetch_alloced_pages s ?pq)"
      and dq: "region_pages \<lparr> start_page = ?pq, pages = fetch_alloced_pages s ?pq \<rparr>
                 \<inter> cover (free_regions s) = {}"
      using lo by (simp_all add: live_ok_def live_region_def)
    have "\<forall>x. unat x \<in> region_pages \<lparr> start_page = ?pq, pages = fetch_alloced_pages s ?pq \<rparr>
            \<longrightarrow> meta ?s' x = meta s x"
    proof (intro allI impI)
      fix x :: size_t
      assume "unat x \<in> region_pages \<lparr> start_page = ?pq, pages = fetch_alloced_pages s ?pq \<rparr>"
      then have "unat x \<notin> region_pages ?new" using dq cov by auto
      from mark_frame [OF N new this, of s1] show "meta ?s' x = meta s x"
        by (simp add: af)
    qed
    note fc = fetch_cong [OF N okq tag this]
    have pq': "ptr_to_page ?s' q = ?pq" by (simp add: ptr_to_page_def af)
    have lr: "live_region ?s' q = live_region s q"
      using fc(1) by (simp add: live_region_def pq')
    have "live_ok N ?s' q"
      using lo fc(2) cov unfolding live_ok_def lr pq'
      by (auto simp: page_to_ptr_def ptr_to_page_def af)
    then show ?thesis using lr by simp
  qed
  have pp: "ptr_to_page ?s' ?p = page"
    using ptr_to_page_page_to_ptr [OF pg, of s1] by (simp add: ptr_to_page_def page_to_ptr_def)
  have lrp: "live_region ?s' ?p = ?new"
    using fetch_mark_same(1) [OF pg nn, of s1] by (simp add: live_region_def pp)
  have "page_to_ptr ?s' (ptr_to_page ?s' ?p) = ?p"
    by (simp add: pp) (simp add: page_to_ptr_def)
  moreover have "meta ?s' page = 0xFF \<longrightarrow> 255 \<le> unat n"
    using fetch_mark_same(2) [OF pg nn, of s1] by simp
  moreover have "region_pages ?new \<inter> cover (freed_memories s) = {}"
    using lmi cov by (auto simp: lm_inv_def)
  ultimately have newlive: "live_ok N ?s' ?p"
    using new dis unfolding live_ok_def lrp pp by (auto simp: af)
  have cross: "region_pages ?new \<inter> region_pages (live_region s q) = {}" if "q \<in> L" for q
  proof -
    have "live_ok N s q" using inv that by (simp add: lm_inv_live_def)
    then show ?thesis using cov by (auto simp: live_ok_def)
  qed
  have pair: "region_pages (live_region ?s' x) \<inter> region_pages (live_region ?s' y) = {}"
    if xy: "x \<in> insert ?p L" "y \<in> insert ?p L" "x \<noteq> y" for x y
  proof -
    consider "x = ?p" "y \<in> L" | "x \<in> L" "y = ?p" | "x \<in> L" "y \<in> L"
      using xy by auto
    then show ?thesis
    proof cases
      case 1 then show ?thesis using cross [of y] old [of y] lrp by simp
    next
      case 2 then show ?thesis using cross [of x] old [of x] lrp by auto
    next
      case 3 then show ?thesis
        using inv xy(3) old [of x] old [of y] by (simp add: lm_inv_live_def)
    qed
  qed
  show "lm_inv_live N ?s' (insert ?p L)"
    unfolding lm_inv_live_def using lmi' newlive old pair by blast
qed

lemma regions_disjoint_snoc:
  "regions_disjoint (xs @ [r]) =
     (regions_disjoint xs \<and> (\<forall>x \<in> set xs. region_pages x \<inter> region_pages r = {}))"
  by (induction xs) auto

text \<open>\<open>fm_lm_free\<close> on a live pointer keeps the invariant.\<close>

lemma fm_lm_free_inv_live:
  assumes inv: "lm_inv_live N st L" and p: "p \<in> L"
  shows "lm_inv_live N (fm_lm_free st p) (L - {p})"
proof -
  let ?s' = "fm_lm_free st p"
  let ?lr = "live_region st p"
  have s': "?s' = st\<lparr> freed_memories := freed_memories st @ [?lr] \<rparr>"
    by (simp add: fm_lm_free_def live_region_def Let_def)
  have lo: "live_ok N st p" and lmi: "lm_inv N st"
    using inv p by (simp_all add: lm_inv_live_def)
  have d1: "\<forall>x \<in> set (freed_memories st). region_pages x \<inter> region_pages ?lr = {}"
    using lo region_pages_subset_cover by (fastforce simp: live_ok_def)
  have lmi': "lm_inv N ?s'"
    using lmi lo d1 unfolding s' lm_inv_def live_ok_def
    by (auto simp: regions_disjoint_snoc)
  have lr: "live_region ?s' q = live_region st q" for q
    by (rule live_region_cong) (simp_all add: s')
  have "live_ok N ?s' q" if "q \<in> L - {p}" for q
  proof -
    have "live_ok N st q" "region_pages (live_region st q) \<inter> region_pages ?lr = {}"
      using inv that p by (auto simp: lm_inv_live_def)
    then show ?thesis
      unfolding live_ok_def lr by (auto simp: s' page_to_ptr_def ptr_to_page_def)
  qed
  then show ?thesis
    using inv lmi' unfolding lm_inv_live_def lr by blast
qed


lemma live_page_not_free:
  assumes "live_ok N st q"
  shows "unat (ptr_to_page st q) \<notin> cover (free_regions st)"
    and "unat (ptr_to_page st q) \<notin> cover (freed_memories st)"
proof -
  have "unat (ptr_to_page st q) \<in> region_pages (live_region st q)"
    using assms region_ok_nonempty [of N "live_region st q"]
    by (simp add: live_ok_def live_region_def)
  then show "unat (ptr_to_page st q) \<notin> cover (free_regions st)"
    and "unat (ptr_to_page st q) \<notin> cover (freed_memories st)"
    using assms by (auto simp: live_ok_def)
qed

lemma malloc_commit_fresh:
  assumes inv: "lm_inv_live N s L" and n0: "n \<noteq> 0"
    and a: "alloc s n t = (page, s1)" and p0: "page \<noteq> 0"
  shows "page_to_ptr s1 page \<notin> L"
proof
  assume q: "page_to_ptr s1 page \<in> L"
  have N: "N \<le> 4095" and ok: "free_list_ok N (free_regions s)"
    using inv by (simp_all add: lm_inv_live_def lm_inv_def)
  have "unat page \<le> N" using alloc_result_bounds [OF N ok a p0] by simp
  then have "ptr_to_page s (page_to_ptr s1 page) = page"
    using ptr_to_page_page_to_ptr [of page s1] N alloc_fields(1) [OF a]
    by (simp add: ptr_to_page_def page_to_ptr_def)
  moreover have "live_ok N s (page_to_ptr s1 page)"
    using inv q by (simp add: lm_inv_live_def)
  ultimately show False
    using live_page_not_free(1) malloc_commit(2) [OF inv n0 a p0] by fastforce
qed

text \<open>\<open>fm_lm_malloc\<close> for at least one page keeps the invariant.\<close>

lemma fm_lm_malloc_inv_live:
  assumes inv: "lm_inv_live N st L" and n0: "requested_pages_of sz \<noteq> 0"
    and m: "fm_lm_malloc st sz t = (p, st')"
  shows "lm_inv_live N st' (if p = NULL then L else insert p L)"
    and "p \<noteq> NULL \<Longrightarrow> p \<notin> L"
    and "buffer_start st' = buffer_start st"
proof -
  let ?n = "fm_roundup sz FM_PAGE_SIZE div FM_PAGE_SIZE"
  have n0': "?n \<noteq> 0" using n0 by (simp add: requested_pages_of_def)
  have N: "N \<le> 4095" and ok: "free_list_ok N (free_regions st)"
    using inv by (simp_all add: lm_inv_live_def lm_inv_def)
  obtain page st1 where a1: "alloc st ?n t = (page, st1)"
    by (cases "alloc st ?n t")
  have all: "lm_inv_live N st' (if p = NULL then L else insert p L) \<and>
             (p \<noteq> NULL \<longrightarrow> p \<notin> L) \<and> buffer_start st' = buffer_start st"
  proof (cases "page = 0")
    case False
    then have r: "p = page_to_ptr st1 page" "st' = mark_alloced_pages st1 page ?n"
      using m a1 by (simp_all add: fm_lm_malloc_def Let_def)
    have "lm_inv_live N st' (insert p L)"
      unfolding r by (rule malloc_commit(1) [OF inv n0' a1 False])
    moreover have "p \<notin> L"
      unfolding r by (rule malloc_commit_fresh [OF inv n0' a1 False])
    ultimately show ?thesis
      using lm_inv_live_subset [of N st' "insert p L" L] alloc_fields(1) [OF a1]
      by (auto simp: r)
  next
    case True
    then have st1: "st1 = st" using alloc_result_0 [OF N ok] a1 by simp
    let ?d = "restore_all_freed_memories st"
    have invd: "lm_inv_live N ?d L"
      using inv by (rule restore_all_freed_memories_inv_live)
    have okd: "free_list_ok N (free_regions ?d)"
      using invd by (simp add: lm_inv_live_def lm_inv_def)
    obtain page2 st2 where a2: "alloc ?d ?n t = (page2, st2)"
      by (cases "alloc ?d ?n t")
    show ?thesis
    proof (cases "page2 = 0")
      case p2: True
      then have "st2 = ?d" using alloc_result_0 [OF N okd] a2 by simp
      then have "p = NULL" "st' = ?d"
        using m a1 True st1 a2 p2 by (simp_all add: fm_lm_malloc_def Let_def)
      then show ?thesis using invd by simp
    next
      case p2: False
      then have r: "p = page_to_ptr st2 page2" "st' = mark_alloced_pages st2 page2 ?n"
        using m a1 True st1 a2 by (simp_all add: fm_lm_malloc_def Let_def)
      have "lm_inv_live N st' (insert p L)"
        unfolding r by (rule malloc_commit(1) [OF invd n0' a2 p2])
      moreover have "p \<notin> L"
        unfolding r by (rule malloc_commit_fresh [OF invd n0' a2 p2])
      ultimately show ?thesis
        using lm_inv_live_subset [of N st' "insert p L" L] alloc_fields(1) [OF a2]
        by (auto simp: r)
    qed
  qed
  then show "lm_inv_live N st' (if p = NULL then L else insert p L)"
    and "p \<noteq> NULL \<Longrightarrow> p \<notin> L" and "buffer_start st' = buffer_start st"
    by auto
qed

lemma and_4095_uint: "uint (x AND (4095 :: size_t)) = uint x mod 4096"
proof -
  have "x AND 4095 = take_bit 12 x"
    using take_bit_eq_mask [of 12 x] by (simp add: mask_eq_exp_minus_1)
  then show ?thesis
    by (simp add: take_bit_eq_mod uint_mod)
qed

lemma mod_4096_2p64: "(a mod 18446744073709551616) mod 4096 = (a :: int) mod 4096"
  by (rule mod_mod_cancel) simp

lemma fm_roundup_aligned: "fm_roundup x 4096 AND 4095 = 0"
proof -
  have "uint (fm_roundup x 4096) mod 4096 = (uint x + (- uint x) mod 4096) mod 4096"
    by (simp add: fm_roundup_def minus_eq_not_plus_1 [symmetric] uint_word_ariths
        and_4095_uint mod_4096_2p64)
  also have "\<dots> = 0"
    by (simp add: mod_add_right_eq)
  finally have "uint (fm_roundup x 4096 AND 4095) = 0"
    by (simp add: and_4095_uint)
  then show ?thesis by (simp add: uint_0_iff)
qed

lemma fm_roundup_of_aligned:
  assumes "y AND 4095 = 0"
  shows "fm_roundup y 4096 = y"
proof -
  have "uint y mod 4096 = 0"
    using assms and_4095_uint [of y] by simp
  then have "(- uint y) mod 4096 = 0"
    by (simp add: zmod_zminus1_eq_if)
  then have "uint ((- y) AND 4095) = 0"
    by (simp add: and_4095_uint uint_word_ariths mod_4096_2p64)
  then have "(- y) AND 4095 = 0" by (simp add: uint_0_iff)
  then show ?thesis
    by (simp add: fm_roundup_def minus_eq_not_plus_1 [symmetric])
qed

lemma fm_roundup_idem: "fm_roundup (fm_roundup x 4096) 4096 = fm_roundup x 4096"
  using fm_roundup_aligned by (rule fm_roundup_of_aligned)

lemma lm_inv_live_payload [simp]:
  "lm_inv_live N (st\<lparr> payload := m \<rparr>) L = lm_inv_live N st L"
proof -
  have "live_region (st\<lparr> payload := m \<rparr>) p = live_region st p" for p
    by (rule live_region_cong) simp_all
  then show ?thesis
    by (simp add: lm_inv_live_def lm_inv_def live_ok_def ptr_to_page_def page_to_ptr_def)
qed

lemma shrink_free_inv_live:
  assumes inv: "lm_inv_live N st L" and ok: "free_list_ok N rs'"
    and sub: "cover rs' \<subseteq> cover (free_regions st)"
  shows "lm_inv_live N (st\<lparr> free_regions := rs' \<rparr>) L"
proof -
  have lr: "live_region (st\<lparr> free_regions := rs' \<rparr>) q = live_region st q" for q
    by (rule live_region_cong) simp_all
  have "lm_inv N (st\<lparr> free_regions := rs' \<rparr>)"
    using inv ok sub by (auto simp: lm_inv_live_def lm_inv_def)
  moreover have "live_ok N (st\<lparr> free_regions := rs' \<rparr>) q" if "q \<in> L" for q
  proof -
    have "live_ok N st q" using inv that by (simp add: lm_inv_live_def)
    then show ?thesis
      unfolding live_ok_def lr using sub by (auto simp: page_to_ptr_def ptr_to_page_def)
  qed
  ultimately show ?thesis
    using inv unfolding lm_inv_live_def lr by blast
qed

text \<open>\<open>fm_lm_realloc\<close> on a live pointer keeps the invariant.\<close>

lemma fm_lm_realloc_inv_live:
  assumes inv: "lm_inv_live N st L" and p: "p \<in> L" and pn: "p \<noteq> NULL"
    and r: "fm_lm_realloc st p sz t = (q, st')"
  shows "lm_inv_live N st' (if q = NULL then L else insert q (L - {p}))"
    and "buffer_start st' = buffer_start st"
proof -
  let ?sz' = "fm_roundup sz FM_PAGE_SIZE"
  let ?new = "?sz' div FM_PAGE_SIZE"
  let ?first = "ptr_to_page st p"
  let ?n = "fetch_alloced_pages st ?first"
  have N: "N \<le> 4095" and ok: "free_list_ok N (free_regions st)"
    using inv by (simp_all add: lm_inv_live_def lm_inv_def)
  have same: "insert p (L - {p}) = L" using p by auto
  have all: "lm_inv_live N st' (if q = NULL then L else insert q (L - {p})) \<and>
             buffer_start st' = buffer_start st"
  proof (cases "?new \<le> ?n")
    case True
    then have "fm_lm_realloc st p sz t = (p, st)"
      using pn by (simp add: fm_lm_realloc_def Let_def)
    with r have "q = p" "st' = st"
      by simp_all
    then show ?thesis using inv pn same by simp
  next
    case False
    then have d0: "?new - ?n \<noteq> 0" by auto
    obtain succ rs' where l: "alloc_designated_free_pages_loop (free_regions st)
                                (?first + ?n) (?new - ?n) = (succ, rs')"
      by (cases "alloc_designated_free_pages_loop (free_regions st) (?first + ?n) (?new - ?n)")
    note c = alloc_designated_free_pages_loop_carved [OF N d0 ok l]
    show ?thesis
    proof (cases "succ = 0")
      case s0: False
      then have "fm_lm_realloc st p sz t = (p, st\<lparr> free_regions := rs' \<rparr>)"
        using pn False l
        by (simp add: fm_lm_realloc_def Let_def alloc_designated_free_pages_def)
      with r have res: "q = p" "st' = st\<lparr> free_regions := rs' \<rparr>"
        by simp_all
      have sub: "cover rs' \<subseteq> cover (free_regions st)"
        using c s0 by (auto simp: carved_def)
      have ok': "free_list_ok N rs'" using c by simp
      have "lm_inv_live N (st\<lparr> free_regions := rs' \<rparr>) L"
        using inv ok' sub by (rule shrink_free_inv_live)
      then show ?thesis using pn same by (simp add: res)
    next
      case s0: True
      then have "rs' = free_regions st" using c by (simp add: carved_def)
      then have d: "alloc_designated_free_pages st (?first + ?n) (?new - ?n) = (0, st)"
        using l s0 by (simp add: alloc_designated_free_pages_def)
      obtain q2 st2 where m: "fm_lm_malloc st ?sz' t = (q2, st2)"
        by (cases "fm_lm_malloc st ?sz' t")
      have "?new \<noteq> 0" using False by auto
      then have rq: "requested_pages_of ?sz' \<noteq> 0"
        by (simp add: requested_pages_of_def FM_PAGE_SIZE_def fm_roundup_idem)
      note mi = fm_lm_malloc_inv_live [OF inv rq m]
      show ?thesis
      proof (cases "q2 = NULL")
        case True
        then have "fm_lm_realloc st p sz t = (NULL, st2)"
          using pn False d m by (simp add: fm_lm_realloc_def Let_def)
        with r have "q = NULL" "st' = st2"
          by simp_all
        then show ?thesis using mi True by simp
      next
        case q2: False
        then have "fm_lm_realloc st p sz t =
            (q2, fm_lm_free (st2\<lparr> payload := memcpy (payload st2) q2 p (?n * FM_PAGE_SIZE) \<rparr>) p)"
          using pn False d m by (simp add: fm_lm_realloc_def Let_def)
        with r have res: "q = q2"
          "st' = fm_lm_free (st2\<lparr> payload := memcpy (payload st2) q2 p (?n * FM_PAGE_SIZE) \<rparr>) p"
          by auto
        have "lm_inv_live N (st2\<lparr> payload := memcpy (payload st2) q2 p (?n * FM_PAGE_SIZE) \<rparr>)
                (insert q2 L)"
          using mi(1) q2 by simp
        from fm_lm_free_inv_live [OF this, of p] p
        have "lm_inv_live N st' (insert q2 L - {p})" by (simp add: res)
        moreover have "insert q2 L - {p} = insert q2 (L - {p})"
          using mi(2) q2 p by auto
        moreover have "buffer_start st' = buffer_start st"
          using mi(3) by (simp add: res fm_lm_free_def Let_def)
        ultimately show ?thesis using q2 res by simp
      qed
    qed
  qed
  then show "lm_inv_live N st' (if q = NULL then L else insert q (L - {p}))"
    and "buffer_start st' = buffer_start st" by auto
qed

text \<open>\<open>fm_lm_reinit\<close> establishes the invariant.\<close>

lemma fm_lm_reinit_inv_live:
  assumes "fm_lm_reinit contents buffer sz zero_filled = Inr (ret, st)"
  shows "lm_inv_live (unat sz div 4096) st {}" and "ret = 0" and "buffer_start st = buffer"
    and "buffer AND (FM_PAGE_SIZE - 1) = 0"
proof -
  have lo: "\<not> sz < 128 * 1024" and hi: "\<not> 16 * 1024 * 1024 \<le> sz"
    and st: "st = \<lparr> buffer_start = buffer,
                    meta = (if zero_filled = 0 then (\<lambda>i. 0) else (\<lambda>i. contents (buffer + i))),
                    free_regions = [\<lparr> start_page = 1, pages = sz div FM_PAGE_SIZE - 1 \<rparr>],
                    freed_memories = [], payload = contents \<rparr>"
    and "ret = 0" and al: "buffer AND (FM_PAGE_SIZE - 1) = 0"
    using assms by (auto simp: fm_lm_reinit_def split: if_splits)
  show "ret = 0" by fact
  show "buffer AND (FM_PAGE_SIZE - 1) = 0" by fact
  show "buffer_start st = buffer" by (simp add: st)
  have l: "131072 \<le> unat sz" and h: "unat sz < 16777216"
    using lo hi by (simp_all add: word_less_nat_alt word_le_nat_alt)
  have d: "unat (sz div 4096) = unat sz div 4096" by (simp add: unat_div)
  have "1 \<le> sz div 4096" using l d by (simp add: word_le_nat_alt)
  then have p: "unat (sz div 4096 - 1) = unat sz div 4096 - 1"
    using d by (simp add: unat_sub)
  have "region_ok (unat sz div 4096) \<lparr> start_page = 1, pages = sz div 4096 - 1 \<rparr>"
    using l h p by (simp add: region_ok_def region_end_def)
  then show "lm_inv_live (unat sz div 4096) st {}"
    using h by (simp add: st lm_inv_live_def lm_inv_def free_list_ok_def FM_PAGE_SIZE_def)
qed

text \<open>Every call of a trace that is not a request for zero pages keeps the invariant.\<close>

lemma lm_step_inv_live:
  assumes inv: "lm_inv_live N st L" and nn: "NULL \<notin> L"
    and pos: "at_least_one_page c"
    and s: "lm_step (st, L) c = Some (st', L')"
  shows "lm_inv_live N st' L' \<and> NULL \<notin> L' \<and> buffer_start st' = buffer_start st"
proof (cases c)
  case (Malloc sz t)
  obtain p s1 where m: "fm_lm_malloc st sz t = (p, s1)" by (cases "fm_lm_malloc st sz t")
  from pos Malloc have n0: "requested_pages_of sz \<noteq> 0" by simp
  from s Malloc m have r: "st' = s1" "L' = (if p = NULL then L else insert p L)"
    by (auto split: if_splits)
  from fm_lm_malloc_inv_live [OF inv n0 m] show ?thesis
    using nn by (auto simp: r)
next
  case (Free p)
  with s have p: "p \<in> L" and r: "st' = fm_lm_free st p" "L' = L - {p}"
    by (auto split: if_splits)
  from fm_lm_free_inv_live [OF inv p] show ?thesis
    using nn by (auto simp: r fm_lm_free_def Let_def)
next
  case (Realloc p sz t)
  obtain q s1 where m: "fm_lm_realloc st p sz t = (q, s1)" by (cases "fm_lm_realloc st p sz t")
  from s Realloc m have p: "p \<in> L"
    and r: "st' = s1" "L' = (if q = NULL then L else insert q (L - {p}))"
    by (auto split: if_splits)
  have "p \<noteq> NULL" using p nn by auto
  from fm_lm_realloc_inv_live [OF inv p this m] show ?thesis
    using nn by (auto simp: r)
qed

lemma lm_run_inv_live:
  "lm_run (st, L) cs = Some (st', L') \<Longrightarrow> list_all at_least_one_page cs \<Longrightarrow>
   lm_inv_live N st L \<Longrightarrow> NULL \<notin> L \<Longrightarrow>
   lm_inv_live N st' L' \<and> NULL \<notin> L' \<and> buffer_start st' = buffer_start st"
proof (induction cs arbitrary: st L)
  case Nil
  then show ?case by simp
next
  case (Cons c cs)
  then obtain s1 L1 where s: "lm_step (st, L) c = Some (s1, L1)"
    and rest: "lm_run (s1, L1) cs = Some (st', L')"
    by (auto split: option.splits)
  from Cons.prems(2) have pos: "at_least_one_page c" and poss: "list_all at_least_one_page cs"
    by simp_all
  from lm_step_inv_live [OF Cons.prems(3,4) pos s] Cons.IH [OF rest poss] show ?case
    by auto
qed


section \<open>Properties of reachable states\<close>

lemma scenario_frees_run:
  "lm_run (scenario_S0, {}) scenario_frees = Some (scenario_frees_state, {0x12000})"
  by (simp add: scenario_frees_def scenario_frees_state_def scenario_S0_def
      requested_pages_of_def lm_eval) auto

lemma scenario_S1_run:
  "lm_run (scenario_S0, {}) scenario_S1_calls = Some (scenario_S1_state, {0x11000, 0x2F000})"
  by (simp add: scenario_S1_calls_def scenario_S1_state_def scenario_S0_def
      requested_pages_of_def lm_eval insert_commute)

lemma scenario_one_freed_run:
  "lm_run (scenario_S0, {}) scenario_one_freed_calls = Some (scenario_one_freed, {})"
  by (simp add: scenario_one_freed_calls_def scenario_one_freed_def scenario_S0_def
      requested_pages_of_def lm_eval)

lemma scenario_traces_at_least_one_page:
  "list_all at_least_one_page scenario_frees"
  "list_all at_least_one_page scenario_S1_calls"
  "list_all at_least_one_page scenario_one_freed_calls"
  by (simp_all add: scenario_frees_def scenario_S1_calls_def scenario_one_freed_calls_def
      requested_pages_of_def fm_roundup_def FM_PAGE_SIZE_def)

text \<open>
  From \<open>fm_lm_reinit\<close>, calls that each ask for at least one page lead to states in which
  the invariant holds and the buffer is where \<open>fm_lm_reinit\<close> was given it.
\<close>

lemma reachable_inv:
  assumes r: "fm_lm_reinit contents buffer sz zero_filled = Inr (ret, st0)"
    and t: "lm_run (st0, {}) calls = Some (st, L)"
    and p: "list_all at_least_one_page calls"
  shows "lm_inv_live (unat sz div 4096) st L" and "buffer_start st = buffer"
  using lm_run_inv_live [OF t p fm_lm_reinit_inv_live(1) [OF r]] fm_lm_reinit_inv_live(3) [OF r]
  by simp_all

lemma reachable_fits:
  assumes r: "fm_lm_reinit contents buffer sz zero_filled = Inr (ret, st0)"
    and f: "unat buffer + unat sz < 2 ^ 64"
    and t: "lm_run (st0, {}) calls = Some (st, L)"
    and p: "list_all at_least_one_page calls"
  shows "buffer_fits (unat sz div 4096) st"
proof -
  have "unat sz div 4096 * 4096 \<le> unat sz" by simp
  then show ?thesis
    using f reachable_inv(2) [OF r t p] fm_lm_reinit_inv_live(4) [OF r]
    by (simp add: buffer_fits_def)
qed

text \<open>
  In these states the free list right after a drain of the deferred list is strictly
  ascending in \<open>start_page\<close> and has no record directly followed by one that starts
  where it ends.
\<close>

lemma drain_sorted_coalesced:
  assumes "fm_lm_reinit contents buffer sz zero_filled = Inr (ret, st0)"
    and "lm_run (st0, {}) calls = Some (st, L)"
    and "list_all at_least_one_page calls"
  shows "sorted_coalesced (free_regions (restore_all_freed_memories st))"
proof -
  have "lm_inv_live (unat sz div 4096) st L"
    using assms by (rule reachable_inv(1))
  then have "lm_inv (unat sz div 4096) (restore_all_freed_memories st)"
    using restore_all_freed_memories_inv(1) by (simp add: lm_inv_live_def)
  then show ?thesis
    by (auto simp: lm_inv_def intro: free_list_ok_sorted_coalesced)
qed

text \<open>
  A request for zero bytes is not among these calls. On the fresh 32-page buffer
  \<open>fm_lm_malloc(0, TRANSIENT)\<close> returns the address of page 1 and leaves the free record
  \<open>{1, 31}\<close> in the free list; \<open>fm_lm_free\<close> of that pointer reads the length 0 from
  the metadata table and puts the record \<open>{1, 0}\<close> on the deferred list.
\<close>

lemma zero_memory_upd: "zero_memory(a := 0) = zero_memory"
  by (simp add: zero_memory_def fun_eq_iff)

lemma zero_memory_apply: "zero_memory a = 0"
  by (simp add: zero_memory_def)





lemma scenario_zero_drain_malloc:
  "fm_lm_malloc scenario_zero_freed (128 * 1024) FM_LM_T_TRANSIENT =
     (NULL, restore_all_freed_memories scenario_zero_freed)"
  by (simp add: scenario_zero_freed_def lm_eval)



lemma scenario_one_freed_malloc:
  "fst (fm_lm_malloc scenario_one_freed (128 * 1024) FM_LM_T_TRANSIENT) = NULL \<and>
   free_regions (snd (fm_lm_malloc scenario_one_freed (128 * 1024) FM_LM_T_TRANSIENT)) =
     [\<lparr> start_page = 1, pages = 31 \<rparr>] \<and>
   freed_memories (snd (fm_lm_malloc scenario_one_freed (128 * 1024) FM_LM_T_TRANSIENT)) = []"
  by (simp add: scenario_one_freed_def lm_eval)

lemma scenario_one_freed_inv:
  "lm_inv 32 scenario_one_freed" "buffer_fits 32 scenario_one_freed"
proof -
  have f: "unat (0x10000 :: size_t) + unat (128 * 1024 :: size_t) < 2 ^ 64" by simp
  show "lm_inv 32 scenario_one_freed"
    using reachable_inv(1) [OF scenario_S0_reinit scenario_one_freed_run
        scenario_traces_at_least_one_page(3)]
    by (simp add: lm_inv_live_def)
  show "buffer_fits 32 scenario_one_freed"
    using reachable_fits [OF scenario_S0_reinit f scenario_one_freed_run
        scenario_traces_at_least_one_page(3)]
    by simp
qed

text \<open>
  C5, as stated: a \<open>fm_lm_malloc\<close> that returns \<open>NULL\<close> leaves the free list and the
  deferred list as they were. After one allocation and its release, a request for the
  whole buffer returns \<open>NULL\<close>, and both lists have changed: the drain has moved the
  deferred record into the free list.
\<close>

theorem fm_lm_malloc_NULL_counterexample:
  "lm_run (scenario_S0, {}) scenario_one_freed_calls = Some (scenario_one_freed, {}) \<and>
   fst (fm_lm_malloc scenario_one_freed (128 * 1024) FM_LM_T_TRANSIENT) = NULL \<and>
   free_regions scenario_one_freed = [\<lparr> start_page = 2, pages = 30 \<rparr>] \<and>
   freed_memories scenario_one_freed = [\<lparr> start_page = 1, pages = 1 \<rparr>] \<and>
   free_regions (snd (fm_lm_malloc scenario_one_freed (128 * 1024) FM_LM_T_TRANSIENT)) \<noteq>
     free_regions scenario_one_freed \<and>
   freed_memories (snd (fm_lm_malloc scenario_one_freed (128 * 1024) FM_LM_T_TRANSIENT)) \<noteq>
     freed_memories scenario_one_freed"
  using scenario_one_freed_run scenario_one_freed_malloc
  by (simp add: scenario_one_freed_def)

text \<open>
  C5, amended: in every state in which the invariant \<open>lm_inv\<close> of the two lists holds and
  the buffer is an object of the address space (\<open>buffer_fits\<close>), if \<open>fm_lm_malloc\<close>
  returns \<open>NULL\<close> then the state it leaves is the state after the drain of the deferred
  list: the metadata table is as before the call, the deferred list is empty, and the free
  list holds the pages of the former free and deferred records, strictly ascending in
  \<open>start_page\<close> and with no record directly followed by one that starts where it ends;
  when the deferred list was empty before the call, the state is exactly as it was.
  By \<open>reachable_inv\<close> and \<open>reachable_fits\<close> these are the states reached from
  \<open>fm_lm_reinit\<close>, on a buffer that ends below the top of the address space, by calls
  that each ask for at least one page, among others.
\<close>

theorem fm_lm_malloc_NULL_drained:
  assumes "lm_inv N st" and "buffer_fits N st"
    and "fst (fm_lm_malloc st request t) = NULL"
  shows "snd (fm_lm_malloc st request t) = restore_all_freed_memories st \<and>
         meta (snd (fm_lm_malloc st request t)) = meta st \<and>
         freed_memories (snd (fm_lm_malloc st request t)) = [] \<and>
         cover (free_regions (snd (fm_lm_malloc st request t))) =
           cover (free_regions st) \<union> cover (freed_memories st) \<and>
         sorted_coalesced (free_regions (snd (fm_lm_malloc st request t))) \<and>
         (freed_memories st = [] \<longrightarrow> snd (fm_lm_malloc st request t) = st)"
proof -
  have e: "snd (fm_lm_malloc st request t) = restore_all_freed_memories st"
    using assms by (rule fm_lm_malloc_NULL)
  have "lm_inv N (restore_all_freed_memories st)"
    using assms(1) by (rule restore_all_freed_memories_inv(1))
  then have "sorted_coalesced (free_regions (restore_all_freed_memories st))"
    by (auto simp: lm_inv_def intro: free_list_ok_sorted_coalesced)
  then show ?thesis
    using e restore_all_freed_memories_inv(2) [OF assms(1)]
      restore_all_freed_memories_empty [of st]
    by simp
qed

theorem fm_lm_malloc_NULL_drained_witness:
  "lm_inv 32 scenario_one_freed \<and> buffer_fits 32 scenario_one_freed \<and>
   freed_memories scenario_one_freed = [\<lparr> start_page = 1, pages = 1 \<rparr>] \<and>
   fst (fm_lm_malloc scenario_one_freed (128 * 1024) FM_LM_T_TRANSIENT) = NULL \<and>
   snd (fm_lm_malloc scenario_one_freed (128 * 1024) FM_LM_T_TRANSIENT) =
     restore_all_freed_memories scenario_one_freed \<and>
   meta (snd (fm_lm_malloc scenario_one_freed (128 * 1024) FM_LM_T_TRANSIENT)) =
     meta scenario_one_freed \<and>
   freed_memories (snd (fm_lm_malloc scenario_one_freed (128 * 1024) FM_LM_T_TRANSIENT)) = [] \<and>
   free_regions (snd (fm_lm_malloc scenario_one_freed (128 * 1024) FM_LM_T_TRANSIENT)) =
     [\<lparr> start_page = 1, pages = 31 \<rparr>] \<and>
   sorted_coalesced
     (free_regions (snd (fm_lm_malloc scenario_one_freed (128 * 1024) FM_LM_T_TRANSIENT)))"
proof -
  have n: "fst (fm_lm_malloc scenario_one_freed (128 * 1024) FM_LM_T_TRANSIENT) = NULL"
    using scenario_one_freed_malloc by simp
  have d: "freed_memories scenario_one_freed = [\<lparr> start_page = 1, pages = 1 \<rparr>]"
    by (simp add: scenario_one_freed_def)
  show ?thesis
    using fm_lm_malloc_NULL_drained [OF scenario_one_freed_inv n]
      scenario_one_freed_inv n d scenario_one_freed_malloc
    by (simp add: sorted_coalesced_def)
qed

text \<open>
  C8, as stated: for every direction the pointer \<open>fm_lm_malloc(0, t)\<close> returns is memory
  still recorded as free. For \<open>FM_LM_T_PERSISTENT\<close> on the fresh 32-page buffer the
  pointer is \<open>0x30000\<close>, the end of the buffer, and page 32 is in no free record; after
  the two allocations of scenario S1 the pointer is \<open>0x2F000\<close>, the live allocation at
  page 31, which is in no free record either and whose recorded length goes from 1
  to 0.
\<close>

theorem fm_lm_malloc_zero_persistent_counterexample:
  "fm_lm_reinit zero_memory 0x10000 (128 * 1024) 0 = Inr (0, scenario_S0) \<and>
   fst (fm_lm_malloc scenario_S0 0 FM_LM_T_PERSISTENT) = 0x30000 \<and>
   (0x30000 :: size_t) = 0x10000 + 128 * 1024 \<and>
   ptr_to_page scenario_S0 0x30000 = 32 \<and>
   free_regions (snd (fm_lm_malloc scenario_S0 0 FM_LM_T_PERSISTENT)) =
     [\<lparr> start_page = 1, pages = 31 \<rparr>] \<and>
   32 \<notin> cover (free_regions (snd (fm_lm_malloc scenario_S0 0 FM_LM_T_PERSISTENT))) \<and>
   lm_run (scenario_S0, {}) scenario_S1_calls = Some (scenario_S1_state, {0x11000, 0x2F000}) \<and>
   fst (fm_lm_malloc scenario_S1_state 0 FM_LM_T_PERSISTENT) = 0x2F000 \<and>
   ptr_to_page scenario_S1_state 0x2F000 = 31 \<and>
   free_regions (snd (fm_lm_malloc scenario_S1_state 0 FM_LM_T_PERSISTENT)) =
     [\<lparr> start_page = 2, pages = 29 \<rparr>] \<and>
   31 \<notin> cover (free_regions (snd (fm_lm_malloc scenario_S1_state 0 FM_LM_T_PERSISTENT))) \<and>
   fetch_alloced_pages scenario_S1_state 31 = 1 \<and>
   fetch_alloced_pages (snd (fm_lm_malloc scenario_S1_state 0 FM_LM_T_PERSISTENT)) 31 = 0"
proof -
  have a: "fm_lm_malloc scenario_S0 0 FM_LM_T_PERSISTENT = (0x30000, scenario_S0)"
    by (simp add: scenario_S0_def lm_eval zero_memory_upd zero_memory_apply)
  have b: "fst (fm_lm_malloc scenario_S1_state 0 FM_LM_T_PERSISTENT) = 0x2F000"
    "free_regions (snd (fm_lm_malloc scenario_S1_state 0 FM_LM_T_PERSISTENT)) =
       [\<lparr> start_page = 2, pages = 29 \<rparr>]"
    "fetch_alloced_pages scenario_S1_state 31 = 1"
    "fetch_alloced_pages (snd (fm_lm_malloc scenario_S1_state 0 FM_LM_T_PERSISTENT)) 31 = 0"
    by (simp_all add: scenario_S1_state_def lm_eval zero_memory_apply)
  have c: "ptr_to_page scenario_S0 0x30000 = 32" "ptr_to_page scenario_S1_state 0x2F000 = 31"
    by (simp_all add: scenario_S0_def scenario_S1_state_def lm_eval)
  have d: "32 \<notin> cover [\<lparr> start_page = 1, pages = 31 \<rparr>]"
    "31 \<notin> cover [\<lparr> start_page = 2, pages = 29 \<rparr>]"
    by (simp_all add: cover_def region_pages_def region_end_def)
  show ?thesis
    using scenario_S0_reinit scenario_S1_run a b c d by (simp add: scenario_S0_def)
qed

text \<open>
  C8, amended: in every state with a free list that is not empty and is in order
  (\<open>free_list_ok\<close>: records of at least one page after page 0 and inside a buffer of at
  most 4095 pages, each ending at least one page before the next starts), on a buffer that
  is an object of the address space, \<open>fm_lm_malloc(0, t)\<close> asks for 0 pages and returns a
  pointer that is not \<open>NULL\<close> and is page-aligned; the free list and the deferred list
  stay as they are and the metadata table gets a run length of 0 at the returned page.
  For \<open>FM_LM_T_TRANSIENT\<close> the returned page is the first page of the first free record,
  a page still recorded as free; for any other direction it is the page after the last
  page of the last free record, a page that is not recorded as free.
\<close>

theorem fm_lm_malloc_zero_size:
  assumes "N \<le> 4095" and "free_list_ok N (free_regions st)" and "buffer_fits N st"
    and "free_regions st \<noteq> []"
  shows "requested_pages_of 0 = 0 \<and>
         fm_lm_malloc st 0 t =
           (page_to_ptr st (zero_size_page st t),
            st\<lparr> meta := (meta st)(zero_size_page st t := 0) \<rparr>) \<and>
         page_to_ptr st (zero_size_page st t) \<noteq> NULL \<and>
         page_to_ptr st (zero_size_page st t) AND (FM_PAGE_SIZE - 1) = 0 \<and>
         (t = FM_LM_T_TRANSIENT \<longrightarrow>
            zero_size_page st t = start_page (hd (free_regions st)) \<and>
            unat (zero_size_page st t) \<in> cover (free_regions st)) \<and>
         (t \<noteq> FM_LM_T_TRANSIENT \<longrightarrow>
            unat (zero_size_page st t) = region_end (last (free_regions st)) \<and>
            unat (zero_size_page st t) \<notin> cover (free_regions st))"
proof -
  note N = assms(1) and ok = assms(2) and fits = assms(3)
  note z = fm_lm_malloc_zero [OF N ok assms(4), of t, folded zero_size_page_def]
  have h: "region_ok N (hd (free_regions st))" and l: "region_ok N (last (free_regions st))"
    using ok assms(4) by (simp_all add: free_list_ok_def)
  have "page_to_ptr st (zero_size_page st t) \<noteq> NULL"
    unfolding NULL_def using fits N z(2,3) by (rule page_to_ptr_nonzero)
  moreover have "page_to_ptr st (zero_size_page st t) AND (FM_PAGE_SIZE - 1) = 0"
    using fits N z(3) by (rule page_to_ptr_aligned)
  moreover have "unat (start_page (hd (free_regions st))) \<in> cover (free_regions st)"
    using region_ok_nonempty [OF h]
      region_pages_subset_cover [OF hd_in_set [OF assms(4)]] by auto
  moreover have "unat (start_page (last (free_regions st)) + pages (last (free_regions st))) =
                 region_end (last (free_regions st))"
    using N l by (rule unat_region_end)
  moreover have "region_end (last (free_regions st)) \<notin> cover (free_regions st)"
    using ok assms(4) by (rule region_end_last_not_in_cover)
  ultimately show ?thesis
    using z(1) by (simp add: requested_pages_of_def zero_size_page_def)
qed

lemma scenario_S1_state_ok:
  "free_list_ok 32 (free_regions scenario_S1_state)" "buffer_fits 32 scenario_S1_state"
  by (simp_all add: scenario_S1_state_def free_list_ok_def region_ok_def region_end_def
      buffer_fits_def FM_PAGE_SIZE_def)

theorem fm_lm_malloc_zero_size_witness:
  "(32 :: nat) \<le> 4095 \<and>
   free_list_ok 32 (free_regions scenario_S1_state) \<and>
   buffer_fits 32 scenario_S1_state \<and>
   free_regions scenario_S1_state \<noteq> [] \<and>
   zero_size_page scenario_S1_state FM_LM_T_TRANSIENT = 2 \<and>
   zero_size_page scenario_S1_state FM_LM_T_PERSISTENT = 31 \<and>
   fst (fm_lm_malloc scenario_S1_state 0 FM_LM_T_TRANSIENT) = 0x12000 \<and>
   fst (fm_lm_malloc scenario_S1_state 0 FM_LM_T_PERSISTENT) = 0x2F000 \<and>
   free_regions (snd (fm_lm_malloc scenario_S1_state 0 FM_LM_T_TRANSIENT)) =
     [\<lparr> start_page = 2, pages = 29 \<rparr>] \<and>
   free_regions (snd (fm_lm_malloc scenario_S1_state 0 FM_LM_T_PERSISTENT)) =
     [\<lparr> start_page = 2, pages = 29 \<rparr>] \<and>
   2 \<in> cover (free_regions scenario_S1_state) \<and>
   31 \<notin> cover (free_regions scenario_S1_state)"
proof -
  have N: "(32 :: nat) \<le> 4095" by simp
  have n: "free_regions scenario_S1_state \<noteq> []" by (simp add: scenario_S1_state_def)
  have z: "zero_size_page scenario_S1_state FM_LM_T_TRANSIENT = 2"
    "zero_size_page scenario_S1_state FM_LM_T_PERSISTENT = 31"
    by (simp_all add: zero_size_page_def scenario_S1_state_def FM_LM_T_TRANSIENT_def
        FM_LM_T_PERSISTENT_def)
  have p: "page_to_ptr scenario_S1_state 2 = 0x12000" "page_to_ptr scenario_S1_state 31 = 0x2F000"
    by (simp_all add: page_to_ptr_def scenario_S1_state_def FM_PAGE_SIZE_def)
  have t: "FM_LM_T_PERSISTENT \<noteq> FM_LM_T_TRANSIENT"
    by (simp add: FM_LM_T_TRANSIENT_def FM_LM_T_PERSISTENT_def)
  show ?thesis
    using fm_lm_malloc_zero_size [OF N scenario_S1_state_ok n, of FM_LM_T_TRANSIENT]
      fm_lm_malloc_zero_size [OF N scenario_S1_state_ok n, of FM_LM_T_PERSISTENT]
      N scenario_S1_state_ok n t
    by (simp add: z p) (simp add: scenario_S1_state_def)
qed


section \<open>The slab layer\<close>

lemma scenario_sm_full_eval:
  "slab_lists scenario_sm_full = [[], [0x2F000], [], [], []] \<and>
   bitmap (slab_pages scenario_sm_full 0x2F000) = [0, 0] \<and>
   free_regions (lm scenario_sm_full) = [] \<and> freed_memories (lm scenario_sm_full) = []"
  by code_simp

lemma scenario_sm0_reinit:
  "fm_sm_reinit scenario_sm0 zero_memory 0x10000 (128 * 1024) 0 = Inr (0, scenario_sm0)"
  using scenario_S0_reinit by (simp add: fm_sm_reinit_def scenario_sm0_def)

text \<open>
  C6 at its failing input: after \<open>fm_sm_reinit\<close> on the 32-page buffer, pages 1 to 30
  are allocated, page 31 is a slab page of the 64-byte class whose only cell has been freed,
  and no page is free. \<open>fm_sm_malloc(32)\<close>
  finds no slab page of its class, calls \<open>fm_lm_malloc\<close> directly and returns \<open>NULL\<close>
  without returning the empty slab page to the linear allocator; after
  \<open>free_empty_slabs\<close> the same \<open>fm_lm_malloc\<close> call succeeds, and a request above the
  largest class, which goes through \<open>lm_malloc\<close>, obtains page 31 in the same state.
\<close>

theorem slab_page_acquisition_no_retry:
  "fm_sm_reinit scenario_sm0 zero_memory 0x10000 (128 * 1024) 0 = Inr (0, scenario_sm0) \<and>
   slab_lists scenario_sm_full = [[], [page_to_ptr scenario_S0 31], [], [], []] \<and>
   bitmap_all_cleared (slab_pages scenario_sm_full (page_to_ptr scenario_S0 31)) \<and>
   free_regions (lm scenario_sm_full) = [] \<and>
   freed_memories (lm scenario_sm_full) = [] \<and>
   fst (fm_sm_malloc scenario_sm_full 32) = NULL \<and>
   slab_lists (snd (fm_sm_malloc scenario_sm_full 32)) = slab_lists scenario_sm_full \<and>
   freed_memories (lm (snd (fm_sm_malloc scenario_sm_full 32))) = [] \<and>
   fst (fm_lm_malloc (lm (free_empty_slabs scenario_sm_full)) FM_PAGE_SIZE FM_LM_T_PERSISTENT) =
     page_to_ptr scenario_S0 31 \<and>
   fst (fm_sm_malloc scenario_sm_full 2048) = page_to_ptr scenario_S0 31"
proof -
  have "slab_lists scenario_sm_full = [[], [page_to_ptr scenario_S0 31], [], [], []] \<and>
        bitmap_all_cleared (slab_pages scenario_sm_full (page_to_ptr scenario_S0 31)) \<and>
        free_regions (lm scenario_sm_full) = [] \<and>
        freed_memories (lm scenario_sm_full) = [] \<and>
        fst (fm_sm_malloc scenario_sm_full 32) = NULL \<and>
        slab_lists (snd (fm_sm_malloc scenario_sm_full 32)) = slab_lists scenario_sm_full \<and>
        freed_memories (lm (snd (fm_sm_malloc scenario_sm_full 32))) = [] \<and>
        fst (fm_lm_malloc (lm (free_empty_slabs scenario_sm_full)) FM_PAGE_SIZE
               FM_LM_T_PERSISTENT) = page_to_ptr scenario_S0 31 \<and>
        fst (fm_sm_malloc scenario_sm_full 2048) = page_to_ptr scenario_S0 31"
    by code_simp
  then show ?thesis using scenario_sm0_reinit by simp
qed


text \<open>What a failed \<open>fm_sm_malloc\<close> leaves alone.\<close>

lemma fm_lm_free_fields [simp]:
  "payload (fm_lm_free st p) = payload st" "buffer_start (fm_lm_free st p) = buffer_start st"
  by (simp_all add: fm_lm_free_def Let_def)

lemma fm_lm_malloc_payload: "payload (snd (fm_lm_malloc st sz t)) = payload st"
proof -
  let ?n = "fm_roundup sz FM_PAGE_SIZE div FM_PAGE_SIZE"
  obtain page st1 where a1: "alloc st ?n t = (page, st1)" by (cases "alloc st ?n t")
  obtain page2 st2 where a2: "alloc (restore_all_freed_memories st1) ?n t = (page2, st2)"
    by (cases "alloc (restore_all_freed_memories st1) ?n t")
  show ?thesis
    using a1 a2 alloc_fields(4) [OF a1] alloc_fields(4) [OF a2]
    by (simp add: fm_lm_malloc_def Let_def)
qed

lemma fm_lm_malloc_buffer_start: "buffer_start (snd (fm_lm_malloc st sz t)) = buffer_start st"
proof -
  let ?n = "fm_roundup sz FM_PAGE_SIZE div FM_PAGE_SIZE"
  obtain page st1 where a1: "alloc st ?n t = (page, st1)" by (cases "alloc st ?n t")
  obtain page2 st2 where a2: "alloc (restore_all_freed_memories st1) ?n t = (page2, st2)"
    by (cases "alloc (restore_all_freed_memories st1) ?n t")
  show ?thesis
    using a1 a2 alloc_fields(1) [OF a1] alloc_fields(1) [OF a2]
    by (simp add: fm_lm_malloc_def Let_def)
qed

lemma aligned_plus_pages:
  assumes "b AND (4095 :: size_t) = 0"
  shows "(b + page * 4096) AND 4095 = 0"
proof -
  have "uint b mod 4096 = 0" using assms and_4095_uint [of b] by simp
  then have "uint (b + page * 4096) mod 4096 = 0"
    by (simp add: uint_word_ariths mod_4096_2p64 mod_add_right_eq)
  then have "uint ((b + page * 4096) AND 4095) = 0" by (simp add: and_4095_uint)
  then show ?thesis by (simp add: uint_0_iff)
qed

lemma fm_lm_malloc_aligned:
  assumes "buffer_start st AND (FM_PAGE_SIZE - 1) = 0"
  shows "fst (fm_lm_malloc st sz t) AND (FM_PAGE_SIZE - 1) = 0"
proof -
  let ?n = "fm_roundup sz FM_PAGE_SIZE div FM_PAGE_SIZE"
  obtain page st1 where a1: "alloc st ?n t = (page, st1)" by (cases "alloc st ?n t")
  obtain page2 st2 where a2: "alloc (restore_all_freed_memories st1) ?n t = (page2, st2)"
    by (cases "alloc (restore_all_freed_memories st1) ?n t")
  have "(buffer_start st + pg * 4096) AND 4095 = 0" for pg
    using assms by (intro aligned_plus_pages) (simp add: FM_PAGE_SIZE_def)
  then show ?thesis
    using a1 a2 alloc_fields(1) [OF a1] alloc_fields(1) [OF a2]
    by (simp add: fm_lm_malloc_def Let_def page_to_ptr_def FM_PAGE_SIZE_def NULL_def)
qed

text \<open>A cell of a slab page in order does not start on a page boundary.\<close>

lemma cell_ptr_unaligned:
  assumes al: "m AND (4095 :: size_t) = 0" and i: "index < cnt"
    and fit: "64 + unat cnt * unat sz \<le> 4096"
  shows "(m + 64 + index * sz) AND 4095 \<noteq> 0"
proof -
  have "unat index < unat cnt" using i by (simp add: word_less_nat_alt)
  then have "Suc (unat index) * unat sz \<le> unat cnt * unat sz"
    by (intro mult_le_mono1) simp
  then have lt: "unat index * unat sz < 4032"
    using fit by (cases "unat sz = 0") auto
  then have m1: "unat (index * sz) = unat index * unat sz"
    by (simp add: unat_mult_lem [THEN iffD1])
  then have m2: "unat (64 + index * sz) = 64 + unat index * unat sz"
    using lt by (simp add: unat_add_lem [THEN iffD1])
  have m0: "unat m mod 4096 = 0" using al and_4095_unat [of m] by simp
  have "unat (m + (64 + index * sz)) mod 4096 =
          ((unat m + unat (64 + index * sz)) mod 18446744073709551616) mod 4096"
    by (simp add: unat_word_ariths)
  also have "\<dots> = (unat m + unat (64 + index * sz)) mod 4096"
    by (rule mod_mod_cancel) simp
  also have "\<dots> = unat (64 + index * sz) mod 4096"
    using m0 by (metis add.left_neutral mod_add_left_eq)
  also have "\<dots> = 64 + unat index * unat sz"
    using m2 lt by simp
  finally have "unat (m + (64 + index * sz)) mod 4096 \<noteq> 0" by simp
  then have "(m + (64 + index * sz)) AND 4095 \<noteq> 0"
    using and_4095_unat [of "m + (64 + index * sz)"] by simp
  then show ?thesis by (simp add: add.assoc)
qed

lemma bitmap_next_free_less:
  "bitmap_next_free hdr \<noteq> FM_SM_INVALID_SLAB \<Longrightarrow> bitmap_next_free hdr < count hdr"
  by (auto simp: bitmap_next_free_def Let_def split: if_splits)

lemma bitmap_set_fields [simp]:
  "size_cell (bitmap_set hdr i) = size_cell hdr" "count (bitmap_set hdr i) = count hdr"
  by (simp_all add: bitmap_set_def)

lemma fm_sm_malloc_loop_nonnull:
  "\<forall>m \<in> set l. slab_page_ok (hdrs m) m \<Longrightarrow>
   fm_sm_malloc_loop hdrs l = Some (p, hdrs', l') \<Longrightarrow> p \<noteq> NULL"
proof (induction l arbitrary: l')
  case Nil
  then show ?case by simp
next
  case (Cons m rest)
  show ?case
  proof (cases "bitmap_next_free (hdrs m) = FM_SM_INVALID_SLAB")
    case True
    then obtain r where "fm_sm_malloc_loop hdrs rest = Some (p, hdrs', r)"
      using Cons.prems(2) by (auto simp: Let_def split: option.splits)
    then show ?thesis using Cons.IH Cons.prems(1) by auto
  next
    case False
    then have p: "p = m + 64 + bitmap_next_free (hdrs m) * size_cell (hdrs m)"
      using Cons.prems(2)
      by (auto simp: Let_def index_to_ptr_def PAGE_META_RESERVED_SIZE_def)
    have "slab_page_ok (hdrs m) m" using Cons.prems(1) by simp
    then have al: "m AND 4095 = 0"
      and fit: "64 + unat (count (hdrs m)) * unat (size_cell (hdrs m)) \<le> 4096"
      by (simp_all add: slab_page_ok_def FM_PAGE_SIZE_def)
    have "(m + 64 + bitmap_next_free (hdrs m) * size_cell (hdrs m)) AND 4095 \<noteq> 0"
      using al bitmap_next_free_less [OF False] fit by (rule cell_ptr_unaligned)
    then show ?thesis by (auto simp: p NULL_def)
  qed
qed

text \<open>
  \<open>free_empty_slabs\<close> keeps the headers and the payload, and keeps every page whose
  bitmap is not all clear in the class lists it is in.
\<close>

lemma free_empty_slabs_loop_kept:
  "free_empty_slabs_loop hdrs l lms = (kept, lms') \<Longrightarrow>
   kept = filter (\<lambda>m. \<not> bitmap_all_cleared (hdrs m)) l \<and> payload lms' = payload lms"
proof (induction l arbitrary: lms kept lms')
  case Nil
  then show ?case by simp
next
  case (Cons m rest)
  show ?case
  proof (cases "bitmap_all_cleared (hdrs m)")
    case True
    then show ?thesis using Cons.prems Cons.IH [of "fm_lm_free lms m" kept lms'] by simp
  next
    case False
    obtain k l1 where r: "free_empty_slabs_loop hdrs rest lms = (k, l1)"
      by (cases "free_empty_slabs_loop hdrs rest lms")
    then show ?thesis using False Cons.prems Cons.IH [OF r] by auto
  qed
qed

lemma slab_kept_refl: "slab_kept m st st"
  by (simp add: slab_kept_def)

lemma slab_kept_trans: "slab_kept m a b \<Longrightarrow> slab_kept m b c \<Longrightarrow> slab_kept m a c"
  by (simp add: slab_kept_def)

lemma free_empty_slabs_class_kept:
  assumes "\<not> bitmap_all_cleared (slab_pages st m)"
  shows "slab_kept m st (free_empty_slabs_class st i)"
proof -
  obtain kept lms where l: "free_empty_slabs_loop (slab_pages st) (slab_lists st ! i) (lm st)
                              = (kept, lms)"
    by (cases "free_empty_slabs_loop (slab_pages st) (slab_lists st ! i) (lm st)")
  note k = free_empty_slabs_loop_kept [OF l]
  have s: "free_empty_slabs_class st i = st\<lparr> lm := lms, slab_lists := (slab_lists st)[i := kept] \<rparr>"
    using l by (simp add: free_empty_slabs_class_def)
  have "(m \<in> set ((slab_lists st)[i := kept] ! j)) = (m \<in> set (slab_lists st ! j))" for j
  proof (cases "j = i \<and> i < length (slab_lists st)")
    case True
    then show ?thesis using k assms by auto
  next
    case ne: False
    show ?thesis
    proof (cases "i < length (slab_lists st)")
      case True
      then show ?thesis using ne by (simp add: nth_list_update)
    next
      case False
      then have "(slab_lists st)[i := kept] = slab_lists st"
        by (simp add: list_update_beyond)
      then show ?thesis by simp
    qed
  qed
  then show ?thesis using k by (simp add: s slab_kept_def)
qed

lemma foldl_free_empty_slabs_class_kept:
  "\<not> bitmap_all_cleared (slab_pages st m) \<Longrightarrow>
   slab_kept m st (foldl free_empty_slabs_class st is)"
proof (induction "is" arbitrary: st)
  case Nil
  then show ?case by (simp add: slab_kept_refl)
next
  case (Cons i "is")
  have k: "slab_kept m st (free_empty_slabs_class st i)"
    using Cons.prems by (rule free_empty_slabs_class_kept)
  then have "\<not> bitmap_all_cleared (slab_pages (free_empty_slabs_class st i) m)"
    using Cons.prems by (simp add: slab_kept_def)
  from Cons.IH [OF this] k show ?case
    by (auto intro: slab_kept_trans)
qed

lemma free_empty_slabs_kept:
  "\<not> bitmap_all_cleared (slab_pages st m) \<Longrightarrow> slab_kept m st (free_empty_slabs st)"
  unfolding free_empty_slabs_def by (rule foldl_free_empty_slabs_class_kept)

lemma lm_malloc_kept:
  assumes "\<not> bitmap_all_cleared (slab_pages st m)"
  shows "slab_kept m st (snd (lm_malloc st sz t))"
proof -
  obtain p lms where a: "fm_lm_malloc (lm st) sz t = (p, lms)"
    by (cases "fm_lm_malloc (lm st) sz t")
  have pl: "payload lms = payload (lm st)"
    using fm_lm_malloc_payload [of "lm st" sz t] a by simp
  let ?s1 = "free_empty_slabs (st\<lparr> lm := lms \<rparr>)"
  obtain p' lms' where b: "fm_lm_malloc (lm ?s1) sz t = (p', lms')"
    by (cases "fm_lm_malloc (lm ?s1) sz t")
  have pl': "payload lms' = payload (lm ?s1)"
    using fm_lm_malloc_payload [of "lm ?s1" sz t] b by simp
  have k0: "slab_kept m st (st\<lparr> lm := lms \<rparr>)"
    using pl by (simp add: slab_kept_def)
  have "slab_kept m (st\<lparr> lm := lms \<rparr>) ?s1"
    using assms by (intro free_empty_slabs_kept) simp
  then have k1: "slab_kept m st ?s1" using k0 by (rule slab_kept_trans [rotated])
  have "slab_kept m ?s1 (?s1\<lparr> lm := lms' \<rparr>)"
    using pl' by (simp add: slab_kept_def)
  then have "slab_kept m st (?s1\<lparr> lm := lms' \<rparr>)" using k1 by (rule slab_kept_trans [rotated])
  then show ?thesis
    using a b k0 by (simp add: lm_malloc_def Let_def)
qed

lemma slab_index_less:
  "slab_index sz \<noteq> FM_SM_INVALID_SLAB \<Longrightarrow> unat (slab_index sz) < 5"
  by (auto simp: slab_index_def slab_sizes_def FM_SM_INVALID_SLAB_def split: if_splits)

lemma fm_sm_malloc_NULL_kept:
  assumes wf: "sm_wf st" and m: "\<not> bitmap_all_cleared (slab_pages st m)"
    and null: "fst (fm_sm_malloc st sz) = NULL"
  shows "slab_kept m st (snd (fm_sm_malloc st sz))"
proof (cases "slab_index sz = FM_SM_INVALID_SLAB")
  case True
  then show ?thesis using lm_malloc_kept [OF m] by (simp add: fm_sm_malloc_def)
next
  case False
  let ?i = "unat (slab_index sz)"
  have "?i < length (slab_lists st)"
    using slab_index_less [OF False] wf by (simp add: sm_wf_def)
  then have "slab_lists st ! ?i \<in> set (slab_lists st)" by (rule nth_mem)
  then have ok: "\<forall>x \<in> set (slab_lists st ! ?i). slab_page_ok (slab_pages st x) x"
    using wf unfolding sm_wf_def by blast
  show ?thesis
  proof (cases "fm_sm_malloc_loop (slab_pages st) (slab_lists st ! ?i)")
    case (Some r)
    obtain p hdrs l where r: "r = (p, hdrs, l)" by (cases r)
    have "p \<noteq> NULL" using fm_sm_malloc_loop_nonnull [OF ok] Some r by simp
    then show ?thesis using null False Some r by (simp add: fm_sm_malloc_def)
  next
    case None
    obtain slab lms where a: "fm_lm_malloc (lm st) FM_PAGE_SIZE FM_LM_T_PERSISTENT = (slab, lms)"
      by (cases "fm_lm_malloc (lm st) FM_PAGE_SIZE FM_LM_T_PERSISTENT")
    have pl: "payload lms = payload (lm st)"
      using fm_lm_malloc_payload [of "lm st" FM_PAGE_SIZE FM_LM_T_PERSISTENT] a by simp
    have al: "slab AND 4095 = 0"
      using fm_lm_malloc_aligned [of "lm st" FM_PAGE_SIZE FM_LM_T_PERSISTENT] wf a
      by (simp add: sm_wf_def FM_PAGE_SIZE_def)
    show ?thesis
    proof (cases "slab = NULL")
      case True
      then show ?thesis
        using False None a pl by (simp add: fm_sm_malloc_def slab_kept_def)
    next
      case sl: False
      have "(slab + 64 + 0 * 0) AND 4095 \<noteq> 0"
        using al by (rule cell_ptr_unaligned [where cnt = 1]) simp_all
      then have "slab + 64 \<noteq> 0" by auto
      then show ?thesis
        using null False None a sl
        by (simp add: fm_sm_malloc_def Let_def index_to_ptr_def PAGE_META_RESERVED_SIZE_def
            NULL_def)
    qed
  qed
qed


lemma allocated_cell_not_cleared:
  assumes "allocated_cell st ptr"
  shows "\<not> bitmap_all_cleared (slab_pages st (fm_rounddown ptr FM_PAGE_SIZE))"
proof -
  let ?hdr = "slab_pages st (fm_rounddown ptr FM_PAGE_SIZE)"
  let ?i = "ptr_to_index (fm_rounddown ptr FM_PAGE_SIZE) ?hdr ptr"
  have sz: "size_cell ?hdr \<in> set slab_sizes"
    and cnt: "count ?hdr = (FM_PAGE_SIZE - PAGE_META_RESERVED_SIZE) div size_cell ?hdr"
    and lt: "?i < count ?hdr"
    and b: "bit (bitmap ?hdr ! unat (?i div 64)) (unat (?i mod 64))"
    using assms unfolding allocated_cell_def Let_def by blast+
  have "count ?hdr \<le> 126"
    using sz cnt by (auto simp: slab_sizes_def FM_PAGE_SIZE_def PAGE_META_RESERVED_SIZE_def)
  then have "unat ?i < 126" using lt by (simp add: word_less_nat_alt word_le_nat_alt)
  then have "unat (?i div 64) = 0 \<or> unat (?i div 64) = 1"
    by (simp add: unat_div) linarith
  moreover have "bitmap ?hdr ! unat (?i div 64) \<noteq> 0"
    using b by auto
  ultimately show ?thesis
    by (auto simp: bitmap_all_cleared_def)
qed

text \<open>
  C10: for an allocated slab cell pointer \<open>p\<close> of a well-formed slab state and a size
  above the class size of the cell, if the \<open>fm_sm_malloc\<close> call inside \<open>fm_sm_realloc\<close>
  returns \<open>NULL\<close>, then \<open>fm_sm_realloc\<close> returns \<open>NULL\<close> and the old cell stays allocated:
  the header of its page, and with it its bitmap bit, is as before, the payload memory is
  as before (nothing is copied), and its page is in the same class lists as before.
\<close>

theorem fm_sm_realloc_malloc_fails:
  assumes "sm_wf st" and "allocated_cell st ptr"
    and "size_cell (slab_pages st (fm_rounddown ptr FM_PAGE_SIZE)) < sz"
    and "fst (fm_sm_malloc st sz) = NULL"
  shows "fst (fm_sm_realloc st ptr sz) = NULL \<and>
         slab_pages (snd (fm_sm_realloc st ptr sz)) (fm_rounddown ptr FM_PAGE_SIZE) =
           slab_pages st (fm_rounddown ptr FM_PAGE_SIZE) \<and>
         allocated_cell (snd (fm_sm_realloc st ptr sz)) ptr \<and>
         payload (lm (snd (fm_sm_realloc st ptr sz))) = payload (lm st) \<and>
         (\<forall>i < 5. (fm_rounddown ptr FM_PAGE_SIZE \<in> set (slab_lists (snd (fm_sm_realloc st ptr sz)) ! i)) =
                   (fm_rounddown ptr FM_PAGE_SIZE \<in> set (slab_lists st ! i)))"
proof -
  let ?m = "fm_rounddown ptr FM_PAGE_SIZE"
  have na: "ptr AND (FM_PAGE_SIZE - 1) \<noteq> 0"
    using assms(2) by (simp add: allocated_cell_def Let_def)
  have gt: "\<not> sz \<le> size_cell (slab_pages st ?m)" using assms(3) by simp
  obtain p st1 where a: "fm_sm_malloc st sz = (p, st1)" by (cases "fm_sm_malloc st sz")
  then have p: "p = NULL" using assms(4) by simp
  have r: "fm_sm_realloc st ptr sz = (NULL, st1)"
    using na gt a p by (simp add: fm_sm_realloc_def Let_def)
  have "slab_kept ?m st (snd (fm_sm_malloc st sz))"
    using assms(1) allocated_cell_not_cleared [OF assms(2)] assms(4)
    by (rule fm_sm_malloc_NULL_kept)
  then have k: "slab_kept ?m st st1" using a by simp
  then have "allocated_cell st1 ptr"
    using assms(2) by (simp add: allocated_cell_def slab_kept_def)
  then show ?thesis
    using k by (simp add: r slab_kept_def)
qed

theorem fm_sm_realloc_malloc_fails_witness:
  "sm_wf (snd scenario_sm_cell) \<and> allocated_cell (snd scenario_sm_cell) (fst scenario_sm_cell) \<and>
   size_cell (slab_pages (snd scenario_sm_cell) (fm_rounddown (fst scenario_sm_cell) FM_PAGE_SIZE))
     < 100 \<and>
   fst (fm_sm_malloc (snd scenario_sm_cell) 100) = NULL \<and>
   fst (fm_sm_realloc (snd scenario_sm_cell) (fst scenario_sm_cell) 100) = NULL \<and>
   allocated_cell (snd (fm_sm_realloc (snd scenario_sm_cell) (fst scenario_sm_cell) 100))
     (fst scenario_sm_cell) \<and>
   payload (lm (snd (fm_sm_realloc (snd scenario_sm_cell) (fst scenario_sm_cell) 100))) =
     payload (lm (snd scenario_sm_cell))"
proof -
  have w: "sm_wf (snd scenario_sm_cell)" by code_simp
  have c: "allocated_cell (snd scenario_sm_cell) (fst scenario_sm_cell)" by code_simp
  have s: "size_cell (slab_pages (snd scenario_sm_cell)
             (fm_rounddown (fst scenario_sm_cell) FM_PAGE_SIZE)) < 100" by code_simp
  have n: "fst (fm_sm_malloc (snd scenario_sm_cell) 100) = NULL" by code_simp
  show ?thesis
    using fm_sm_realloc_malloc_fails [OF w c s n] w c s n by simp
qed


section \<open>Well-formed slab states are kept\<close>

lemma fm_rounddown_aligned: "fm_rounddown p FM_PAGE_SIZE AND (FM_PAGE_SIZE - 1) = 0"
  by (simp add: fm_rounddown_def FM_PAGE_SIZE_def and.assoc)

lemma allocated_cell_page_ok:
  assumes "allocated_cell st ptr"
  shows "slab_page_ok (slab_pages st (fm_rounddown ptr FM_PAGE_SIZE)) (fm_rounddown ptr FM_PAGE_SIZE)"
proof -
  let ?hdr = "slab_pages st (fm_rounddown ptr FM_PAGE_SIZE)"
  have sz: "size_cell ?hdr \<in> set slab_sizes"
    and cnt: "count ?hdr = (FM_PAGE_SIZE - PAGE_META_RESERVED_SIZE) div size_cell ?hdr"
    using assms unfolding allocated_cell_def Let_def by blast+
  have "64 + unat (count ?hdr) * unat (size_cell ?hdr) \<le> 4096"
    using sz cnt by (auto simp: slab_sizes_def FM_PAGE_SIZE_def PAGE_META_RESERVED_SIZE_def)
  then show ?thesis
    using fm_rounddown_aligned [of ptr] by (simp add: slab_page_ok_def)
qed

lemma fm_sm_reinit_wf:
  assumes "fm_sm_reinit st0 contents buffer sz zero_filled = Inr (ret, st)"
  shows "sm_wf st" and "ret = 0"
proof -
  obtain r lms where l: "fm_lm_reinit contents buffer sz zero_filled = Inr (r, lms)"
    using assms by (auto simp: fm_sm_reinit_def split: sum.splits)
  note i = fm_lm_reinit_inv_live [OF l]
  have s: "st = st0\<lparr> lm := lms, slab_lists := replicate 5 [] \<rparr>" and "ret = 0"
    using assms l i(2) by (auto simp: fm_sm_reinit_def)
  show "ret = 0" by fact
  show "sm_wf st" using i(3,4) by (simp add: s sm_wf_def)
qed

lemma slab_page_ok_bitmap_set [simp]:
  "slab_page_ok (bitmap_set h i) m = slab_page_ok h m"
  by (simp add: slab_page_ok_def)

lemma slab_page_ok_bitmap_clear [simp]:
  "slab_page_ok (bitmap_clear h i) m = slab_page_ok h m"
  by (simp add: slab_page_ok_def bitmap_clear_def)

lemma fm_sm_malloc_loop_ok:
  "fm_sm_malloc_loop hdrs l = Some (p, hdrs', l') \<Longrightarrow>
   set l' \<subseteq> set l \<and> (\<forall>x. slab_page_ok (hdrs' x) x = slab_page_ok (hdrs x) x)"
proof (induction l arbitrary: l')
  case Nil
  then show ?case by simp
next
  case (Cons m rest)
  show ?case
  proof (cases "bitmap_next_free (hdrs m) = FM_SM_INVALID_SLAB")
    case True
    then obtain r where "fm_sm_malloc_loop hdrs rest = Some (p, hdrs', r)" "l' = m # r"
      using Cons.prems by (auto simp: Let_def split: option.splits)
    then show ?thesis using Cons.IH by auto
  next
    case False
    then have "hdrs' = hdrs(m := bitmap_set (hdrs m) (bitmap_next_free (hdrs m)))"
      and "set l' \<subseteq> set (m # rest)"
      using Cons.prems by (auto simp: Let_def split: if_splits)
    then show ?thesis by auto
  qed
qed

lemma free_empty_slabs_loop_buffer_start:
  "free_empty_slabs_loop hdrs l lms = (kept, lms') \<Longrightarrow> buffer_start lms' = buffer_start lms"
proof (induction l arbitrary: lms kept lms')
  case Nil
  then show ?case by simp
next
  case (Cons m rest)
  show ?case
  proof (cases "bitmap_all_cleared (hdrs m)")
    case True
    then show ?thesis using Cons.prems Cons.IH [of "fm_lm_free lms m" kept lms'] by simp
  next
    case False
    obtain k l1 where r: "free_empty_slabs_loop hdrs rest lms = (k, l1)"
      by (cases "free_empty_slabs_loop hdrs rest lms")
    then show ?thesis using False Cons.prems Cons.IH [OF r] by auto
  qed
qed

lemma free_empty_slabs_class_wf:
  assumes wf: "sm_wf s"
  shows "sm_wf (free_empty_slabs_class s i)"
proof -
  obtain kept lms where l: "free_empty_slabs_loop (slab_pages s) (slab_lists s ! i) (lm s)
                              = (kept, lms)"
    by (cases "free_empty_slabs_loop (slab_pages s) (slab_lists s ! i) (lm s)")
  have k: "kept = filter (\<lambda>m. \<not> bitmap_all_cleared (slab_pages s m)) (slab_lists s ! i)"
    using free_empty_slabs_loop_kept [OF l] by simp
  have b: "buffer_start lms = buffer_start (lm s)"
    using l by (rule free_empty_slabs_loop_buffer_start)
  have e: "free_empty_slabs_class s i = s\<lparr> lm := lms, slab_lists := (slab_lists s)[i := kept] \<rparr>"
    using l by (simp add: free_empty_slabs_class_def)
  have "\<forall>m \<in> set x. slab_page_ok (slab_pages s m) m"
    if x: "x \<in> set ((slab_lists s)[i := kept])" for x
  proof (cases "x = kept \<and> i < length (slab_lists s)")
    case True
    then have "set x \<subseteq> set (slab_lists s ! i)" using k by auto
    moreover have "slab_lists s ! i \<in> set (slab_lists s)" using True by simp
    ultimately show ?thesis using wf unfolding sm_wf_def by blast
  next
    case False
    then have "x \<in> set (slab_lists s)"
      using x set_update_subset_insert [of "slab_lists s" i kept]
      by (cases "i < length (slab_lists s)") (auto simp: list_update_beyond)
    then show ?thesis using wf unfolding sm_wf_def by blast
  qed
  then show ?thesis
    using wf b by (simp add: e sm_wf_def)
qed

lemma free_empty_slabs_wf: "sm_wf st \<Longrightarrow> sm_wf (free_empty_slabs st)"
proof -
  have "sm_wf s \<Longrightarrow> sm_wf (foldl free_empty_slabs_class s is)" for s "is"
    by (induction "is" arbitrary: s) (simp_all add: free_empty_slabs_class_wf)
  then show "sm_wf st \<Longrightarrow> sm_wf (free_empty_slabs st)"
    by (simp add: free_empty_slabs_def)
qed

lemma sm_wf_lm_update:
  "sm_wf st \<Longrightarrow> buffer_start lms = buffer_start (lm st) \<Longrightarrow> sm_wf (st\<lparr> lm := lms \<rparr>)"
  by (simp add: sm_wf_def)

lemma lm_malloc_wf: "sm_wf st \<Longrightarrow> sm_wf (snd (lm_malloc st sz t))"
proof -
  assume wf: "sm_wf st"
  obtain p lms where a: "fm_lm_malloc (lm st) sz t = (p, lms)"
    by (cases "fm_lm_malloc (lm st) sz t")
  have w1: "sm_wf (st\<lparr> lm := lms \<rparr>)"
    using wf fm_lm_malloc_buffer_start [of "lm st" sz t] a by (simp add: sm_wf_lm_update)
  let ?s1 = "free_empty_slabs (st\<lparr> lm := lms \<rparr>)"
  obtain p' lms' where b: "fm_lm_malloc (lm ?s1) sz t = (p', lms')"
    by (cases "fm_lm_malloc (lm ?s1) sz t")
  have "sm_wf ?s1" using w1 by (rule free_empty_slabs_wf)
  then have "sm_wf (?s1\<lparr> lm := lms' \<rparr>)"
    using fm_lm_malloc_buffer_start [of "lm ?s1" sz t] b by (simp add: sm_wf_lm_update)
  then show ?thesis using a b w1 by (simp add: lm_malloc_def Let_def)
qed

text \<open>\<open>fm_sm_malloc\<close> keeps a slab state well-formed, and keeps every slab page in order.\<close>

lemma fm_sm_malloc_wf:
  assumes wf: "sm_wf st"
  shows "sm_wf (snd (fm_sm_malloc st sz))"
    and "slab_page_ok (slab_pages st m) m \<Longrightarrow>
         slab_page_ok (slab_pages (snd (fm_sm_malloc st sz)) m) m"
proof -
  have "sm_wf (snd (fm_sm_malloc st sz)) \<and>
        (slab_page_ok (slab_pages st m) m \<longrightarrow>
         slab_page_ok (slab_pages (snd (fm_sm_malloc st sz)) m) m)"
  proof (cases "slab_index sz = FM_SM_INVALID_SLAB")
    case True
    have "slab_pages (snd (lm_malloc st sz FM_LM_T_TRANSIENT)) = slab_pages st"
    proof -
      obtain p lms where a: "fm_lm_malloc (lm st) sz FM_LM_T_TRANSIENT = (p, lms)"
        by (cases "fm_lm_malloc (lm st) sz FM_LM_T_TRANSIENT")
      let ?s1 = "free_empty_slabs (st\<lparr> lm := lms \<rparr>)"
      obtain p' lms' where b: "fm_lm_malloc (lm ?s1) sz FM_LM_T_TRANSIENT = (p', lms')"
        by (cases "fm_lm_malloc (lm ?s1) sz FM_LM_T_TRANSIENT")
      have "slab_pages (foldl free_empty_slabs_class s is) = slab_pages s" for s "is"
        by (induction "is" arbitrary: s)
           (simp_all add: free_empty_slabs_class_def split: prod.splits)
      then have "slab_pages ?s1 = slab_pages st" by (simp add: free_empty_slabs_def)
      then show ?thesis using a b by (simp add: lm_malloc_def Let_def)
    qed
    then show ?thesis
      using True lm_malloc_wf [OF wf, of sz FM_LM_T_TRANSIENT] by (simp add: fm_sm_malloc_def)
  next
    case False
    let ?i = "unat (slab_index sz)"
    have il: "?i < length (slab_lists st)"
      using slab_index_less [OF False] wf by (simp add: sm_wf_def)
    show ?thesis
    proof (cases "fm_sm_malloc_loop (slab_pages st) (slab_lists st ! ?i)")
      case (Some r)
      obtain p hdrs l where r: "r = (p, hdrs, l)" by (cases r)
      note lo = fm_sm_malloc_loop_ok [OF Some [unfolded r]]
      have e: "snd (fm_sm_malloc st sz) =
                 st\<lparr> slab_pages := hdrs, slab_lists := (slab_lists st)[?i := l] \<rparr>"
        using False Some r by (simp add: fm_sm_malloc_def)
      have "\<forall>y \<in> set x. slab_page_ok (slab_pages st y) y"
        if x: "x \<in> set ((slab_lists st)[?i := l])" for x
      proof (cases "x = l")
        case True
        then have "set x \<subseteq> set (slab_lists st ! ?i)" using lo by simp
        moreover have "slab_lists st ! ?i \<in> set (slab_lists st)" using il by simp
        ultimately show ?thesis using wf unfolding sm_wf_def by blast
      next
        case False
        then have "x \<in> set (slab_lists st)"
          using x set_update_subset_insert [of "slab_lists st" ?i l] by auto
        then show ?thesis using wf unfolding sm_wf_def by blast
      qed
      then show ?thesis using wf lo by (simp add: e sm_wf_def)
    next
      case None
      obtain slab lms where a: "fm_lm_malloc (lm st) FM_PAGE_SIZE FM_LM_T_PERSISTENT = (slab, lms)"
        by (cases "fm_lm_malloc (lm st) FM_PAGE_SIZE FM_LM_T_PERSISTENT")
      have bs: "buffer_start lms = buffer_start (lm st)"
        using fm_lm_malloc_buffer_start [of "lm st" FM_PAGE_SIZE FM_LM_T_PERSISTENT] a by simp
      have al: "slab AND (FM_PAGE_SIZE - 1) = 0"
        using fm_lm_malloc_aligned [of "lm st" FM_PAGE_SIZE FM_LM_T_PERSISTENT] wf a
        by (simp add: sm_wf_def)
      show ?thesis
      proof (cases "slab = NULL")
        case True
        then show ?thesis
          using False None a wf bs by (simp add: fm_sm_malloc_def sm_wf_lm_update)
      next
        case sl: False
        let ?hdr = "\<lparr> bitmap = [0, 0], size_cell = slab_sizes ! ?i,
                      count = (FM_PAGE_SIZE - PAGE_META_RESERVED_SIZE) div (slab_sizes ! ?i),
                      slab_index_of = slab_index sz \<rparr>"
        have "?i < 5" using slab_index_less [OF False] .
        then have "?i = 0 \<or> ?i = 1 \<or> ?i = 2 \<or> ?i = 3 \<or> ?i = 4" by linarith
        then have fit: "slab_page_ok ?hdr slab"
          using al by (auto simp: slab_page_ok_def slab_sizes_def FM_PAGE_SIZE_def
              PAGE_META_RESERVED_SIZE_def)
        have e: "snd (fm_sm_malloc st sz) =
                   st\<lparr> lm := lms, slab_pages := (slab_pages st)(slab := bitmap_set ?hdr 0),
                       slab_lists := (slab_lists st)[?i := slab # slab_lists st ! ?i] \<rparr>"
          using False None a sl by (simp add: fm_sm_malloc_def Let_def)
        have "\<forall>y \<in> set x. slab_page_ok (((slab_pages st)(slab := bitmap_set ?hdr 0)) y) y"
          if x: "x \<in> set ((slab_lists st)[?i := slab # slab_lists st ! ?i])" for x
        proof -
          have old: "slab_page_ok (((slab_pages st)(slab := bitmap_set ?hdr 0)) y) y"
            if "slab_page_ok (slab_pages st y) y" for y
            using that fit by simp
          have "slab_lists st ! ?i \<in> set (slab_lists st)" using il by simp
          then have "\<forall>y \<in> set (slab_lists st ! ?i). slab_page_ok (slab_pages st y) y"
            using wf unfolding sm_wf_def by blast
          moreover have "x = slab # slab_lists st ! ?i \<or> x \<in> set (slab_lists st)"
            using x set_update_subset_insert [of "slab_lists st" ?i "slab # slab_lists st ! ?i"]
            by auto
          ultimately show ?thesis
            using wf fit old unfolding sm_wf_def by auto
        qed
        then show ?thesis using wf bs fit by (simp add: e sm_wf_def)
      qed
    qed
  qed
  then show "sm_wf (snd (fm_sm_malloc st sz))"
    and "slab_page_ok (slab_pages st m) m \<Longrightarrow>
         slab_page_ok (slab_pages (snd (fm_sm_malloc st sz)) m) m"
    by auto
qed

text \<open>\<open>fm_sm_free\<close> keeps a slab state well-formed when the page of the pointer is in
  order, as the page of an allocated cell is.\<close>

lemma fm_sm_free_wf:
  assumes wf: "sm_wf st"
    and p: "ptr AND (FM_PAGE_SIZE - 1) = 0 \<or>
            slab_page_ok (slab_pages st (fm_rounddown ptr FM_PAGE_SIZE)) (fm_rounddown ptr FM_PAGE_SIZE)"
  shows "sm_wf (fm_sm_free st ptr)"
proof (cases "ptr AND (FM_PAGE_SIZE - 1) = 0")
  case True
  then show ?thesis using wf by (simp add: fm_sm_free_def sm_wf_lm_update)
next
  case False
  let ?m = "fm_rounddown ptr FM_PAGE_SIZE"
  let ?hdr = "slab_pages st ?m"
  let ?hdr' = "bitmap_clear ?hdr (ptr_to_index ?m ?hdr ptr)"
  let ?pages = "(slab_pages st)(?m := ?hdr')"
  let ?k = "unat (slab_index_of ?hdr')"
  have okm: "slab_page_ok ?hdr ?m" using p False by simp
  have ok: "slab_page_ok (?pages y) y" if "slab_page_ok (slab_pages st y) y" for y
    using that okm by simp
  have base: "\<forall>x \<in> set (slab_lists st). \<forall>y \<in> set x. slab_page_ok (?pages y) y"
    using wf ok unfolding sm_wf_def by blast
  have w1: "sm_wf (st\<lparr> slab_pages := ?pages \<rparr>)"
    using wf base by (simp add: sm_wf_def)
  show ?thesis
  proof (cases "bitmap_all_used ?hdr")
    case u: False
    then show ?thesis using False w1 by (simp add: fm_sm_free_def Let_def)
  next
    case u: True
    have "\<forall>y \<in> set x. slab_page_ok (?pages y) y"
      if x: "x \<in> set ((slab_lists st)[?k := slab_lists st ! ?k @ [?m]])" for x
    proof (cases "?k < length (slab_lists st)")
      case True
      then have "slab_lists st ! ?k \<in> set (slab_lists st)" by simp
      then have "\<forall>y \<in> set (slab_lists st ! ?k @ [?m]). slab_page_ok (?pages y) y"
        using base okm by auto
      moreover have "x = slab_lists st ! ?k @ [?m] \<or> x \<in> set (slab_lists st)"
        using x set_update_subset_insert [of "slab_lists st" ?k "slab_lists st ! ?k @ [?m]"]
        by auto
      ultimately show ?thesis using base by blast
    next
      case False
      then have "(slab_lists st)[?k := slab_lists st ! ?k @ [?m]] = slab_lists st"
        by (simp add: list_update_beyond)
      then show ?thesis using x base by simp
    qed
    then show ?thesis
      using False u wf by (simp add: fm_sm_free_def Let_def sm_wf_def)
  qed
qed

lemma fm_lm_realloc_buffer_start:
  "buffer_start (snd (fm_lm_realloc st p sz t)) = buffer_start st"
proof (cases "p = NULL")
  case True
  then show ?thesis by (simp add: fm_lm_realloc_def fm_lm_malloc_buffer_start)
next
  case False
  let ?sz' = "fm_roundup sz FM_PAGE_SIZE"
  let ?new = "?sz' div FM_PAGE_SIZE"
  let ?first = "ptr_to_page st p"
  let ?n = "fetch_alloced_pages st ?first"
  obtain succ st1 where d: "alloc_designated_free_pages st (?first + ?n) (?new - ?n) = (succ, st1)"
    by (cases "alloc_designated_free_pages st (?first + ?n) (?new - ?n)")
  then have b1: "buffer_start st1 = buffer_start st"
    by (auto simp: alloc_designated_free_pages_def split: prod.splits)
  obtain q st2 where m: "fm_lm_malloc st1 ?sz' t = (q, st2)"
    by (cases "fm_lm_malloc st1 ?sz' t")
  then have b2: "buffer_start st2 = buffer_start st1"
    using fm_lm_malloc_buffer_start [of st1 ?sz' t] by simp
  show ?thesis
    using False d m b1 b2 by (simp add: fm_lm_realloc_def Let_def)
qed

text \<open>\<open>fm_sm_realloc\<close> keeps a slab state well-formed under the same condition.\<close>

lemma fm_sm_realloc_wf:
  assumes wf: "sm_wf st"
    and p: "ptr AND (FM_PAGE_SIZE - 1) = 0 \<or>
            slab_page_ok (slab_pages st (fm_rounddown ptr FM_PAGE_SIZE)) (fm_rounddown ptr FM_PAGE_SIZE)"
  shows "sm_wf (snd (fm_sm_realloc st ptr sz))"
proof (cases "ptr AND (FM_PAGE_SIZE - 1) = 0")
  case True
  obtain q lms where r: "fm_lm_realloc (lm st) ptr sz FM_LM_T_TRANSIENT = (q, lms)"
    by (cases "fm_lm_realloc (lm st) ptr sz FM_LM_T_TRANSIENT")
  then have "buffer_start lms = buffer_start (lm st)"
    using fm_lm_realloc_buffer_start [of "lm st" ptr sz FM_LM_T_TRANSIENT] by simp
  then show ?thesis
    using True r wf by (simp add: fm_sm_realloc_def sm_wf_lm_update)
next
  case False
  let ?m = "fm_rounddown ptr FM_PAGE_SIZE"
  have okm: "slab_page_ok (slab_pages st ?m) ?m" using p False by simp
  obtain q st1 where a: "fm_sm_malloc st sz = (q, st1)" by (cases "fm_sm_malloc st sz")
  have w1: "sm_wf st1" and ok1: "slab_page_ok (slab_pages st1 ?m) ?m"
    using fm_sm_malloc_wf(1) [OF wf, of sz] fm_sm_malloc_wf(2) [OF wf okm, of sz] a by simp_all
  let ?s2 = "st1\<lparr> lm := (lm st1)\<lparr> payload := memcpy (payload (lm st1)) q ptr
                                          (size_cell (slab_pages st1 ?m)) \<rparr> \<rparr>"
  have "sm_wf ?s2" using w1 by (simp add: sm_wf_lm_update)
  moreover have "slab_page_ok (slab_pages ?s2 ?m) ?m" using ok1 by simp
  ultimately have "sm_wf (fm_sm_free ?s2 ptr)" by (intro fm_sm_free_wf) simp_all
  then show ?thesis
    using False a wf w1 by (simp add: fm_sm_realloc_def Let_def)
qed


section \<open>\<open>fm_lm_realloc\<close> within the recorded run length\<close>

lemma uint_fm_roundup_4096:
  assumes "uint x + 4095 < 2 ^ 64"
  shows "uint (fm_roundup x 4096) = uint x + (- uint x) mod 4096"
proof -
  have a: "uint ((- x) AND 4095) = (- uint x) mod 4096"
    by (simp add: and_4095_uint uint_word_ariths mod_4096_2p64)
  have "(- uint x) mod 4096 < 4096" by simp
  then have "uint x + (- uint x) mod 4096 < 2 ^ 64" using assms by linarith
  moreover have "0 \<le> uint x + (- uint x) mod 4096" by simp
  ultimately have "(uint x + (- uint x) mod 4096) mod 2 ^ 64 = uint x + (- uint x) mod 4096"
    by (simp add: mod_pos_pos_trivial)
  then show ?thesis
    using a by (simp add: fm_roundup_def minus_eq_not_plus_1 [symmetric] uint_word_ariths)
qed

lemma requested_pages_le:
  assumes k: "unat k \<le> 4095" and s: "s \<le> k * FM_PAGE_SIZE"
  shows "fm_roundup s FM_PAGE_SIZE div FM_PAGE_SIZE \<le> k"
proof -
  have km: "unat (k * 4096) = unat k * 4096"
    using k by (simp add: unat_mult_lem [THEN iffD1])
  have "unat s \<le> unat k * 4096"
    using s km by (simp add: word_le_nat_alt FM_PAGE_SIZE_def)
  then have su: "uint s \<le> uint k * 4096"
    by (metis of_nat_le_iff of_nat_mult of_nat_numeral uint_nat)
  have ku: "uint k \<le> 4095" using k by (metis of_nat_le_iff of_nat_numeral uint_nat)
  have "uint s + 4095 < 2 ^ 64" using su ku by simp
  note r = uint_fm_roundup_4096 [OF this]
  let ?y = "uint s + (- uint s) mod 4096"
  have d: "?y mod 4096 = 0" by (simp add: mod_add_right_eq)
  have "?y < uint s + 4096" by simp
  then have "?y < (uint k + 1) * 4096" using su by (simp add: algebra_simps)
  moreover have "?y = (?y div 4096) * 4096" using d by (simp add: mod_eq_0_iff_dvd)
  ultimately have "?y div 4096 < uint k + 1" by (metis mult_less_cancel_right_pos zero_less_numeral)
  then have "uint (fm_roundup s 4096) div 4096 \<le> uint k" using r by simp
  then have "uint (fm_roundup s 4096 div 4096) \<le> uint k" by (simp add: uint_div)
  then show ?thesis by (simp add: word_le_def FM_PAGE_SIZE_def)
qed

text \<open>
  When the metadata table records \<open>k\<close> pages for \<open>p\<close>, a \<open>fm_lm_realloc\<close> to at most
  \<open>k\<close> pages returns \<open>p\<close> and changes nothing.
\<close>

lemma fm_lm_realloc_fits:
  assumes "p \<noteq> NULL" and "fetch_alloced_pages st (ptr_to_page st p) = k"
    and "unat k \<le> 4095" and "s \<le> k * FM_PAGE_SIZE"
  shows "fm_lm_realloc st p s t = (p, st)"
  using assms(1,2) requested_pages_le [OF assms(3,4)]
  by (simp add: fm_lm_realloc_def Let_def)

end
